theory Spec2Isabelle
  imports Complex_Main "HOL-Library.Sublist"
begin


section \<open>Data model (types.ts, pdfService.ts)\<close>

text \<open>
  A JavaScript string is a sequence of UTF-16 code units; \<open>substring\<close>, \<open>startsWith\<close>
  and \<open>===\<close> work on code units. The model writes one \<open>char\<close> per code unit; nothing
  below looks inside a code unit.
\<close>

datatype question_type = mcq | numerical | msq

record opt =
  opt_text :: string
  isCorrect :: bool
  opt_image :: "string option"

text \<open>
  \<open>qtext\<close> is the field \<open>text\<close> (a command name here). It is declared \<open>string\<close>,
  but \<open>processBatch\<close> builds a question by spreading the record parsed from the
  oracle's JSON (\<open>{...q, ...}\<close>) and never checks it: \<open>None\<close> stands for a record that
  carries no string under \<open>text\<close>, on which \<open>q.text.substring\<close> raises a TypeError.
  The fields the modelled code never reads are left out.
\<close>

record question =
  qtext :: "string option"
  qtype :: question_type
  options :: "opt list"
  image :: "string option"

record pdf_page_image =
  data :: string
  mimeType :: string

section \<open>Windowed reconciler (geminiService.ts, \<open>parseQuestionsWithGemini\<close>)\<close>

datatype error = ApiKeyMissing | TypeError | DOMException | OracleError string

datatype part = TextPart string | ImagePart pdf_page_image

datatype log_entry = WindowStart nat | WindowFailed error

text \<open>
  \<open>processBatch(parts, sourceName, pageNumber?)\<close> calls the external model; it is a
  parameter here. \<open>Inl e\<close> is a rejected promise (network failure, a response that
  \<open>JSON.parse\<close> refuses, a record \<open>processBatch\<close> cannot traverse).
\<close>

type_synonym process_batch = "part list \<Rightarrow> string \<Rightarrow> nat option \<Rightarrow> error + question list"

record recon_state =
  allQuestions :: "question list"
  logged :: "log_entry list"
  submitted :: "(part list \<times> nat option) list"

definition slice :: "nat \<Rightarrow> nat \<Rightarrow> 'a list \<Rightarrow> 'a list" where
  "slice i j xs = take (j - i) (drop i xs)"

definition substring_0_50 :: "string \<Rightarrow> string" where
  "substring_0_50 s = take 50 s"

text \<open>
  \<open>allQuestions.find(prev => prev.text.substring(0, 50) === q.text.substring(0, 50))\<close>:
  the predicate runs on each earlier question in turn, reading \<open>prev.text\<close> before
  \<open>q.text\<close>; on an empty array it never runs.
\<close>

fun find_prev :: "question list \<Rightarrow> question \<Rightarrow> error + question option" where
  "find_prev [] q = Inr None"
| "find_prev (prev # rest) q =
     (case qtext prev of
        None \<Rightarrow> Inl TypeError
      | Some pt \<Rightarrow>
          (case qtext q of
             None \<Rightarrow> Inl TypeError
           | Some qt \<Rightarrow>
               if substring_0_50 pt = substring_0_50 qt then Inr (Some prev)
               else find_prev rest q))"

text \<open>
  The \<open>for (const q of windowQuestions)\<close> loop. \<open>allQuestions\<close> is mutated in place, so
  what was pushed before an exception stays; the exception leaves the loop.
\<close>

fun merge_window :: "question list \<Rightarrow> question list \<Rightarrow> question list \<times> error option" where
  "merge_window allQ [] = (allQ, None)"
| "merge_window allQ (q # qs) =
     (case find_prev allQ q of
        Inl e \<Rightarrow> (allQ, Some e)
      | Inr None \<Rightarrow> merge_window (allQ @ [q]) qs
      | Inr (Some prev) \<Rightarrow> merge_window allQ qs)"

definition WINDOW_SIZE :: nat where
  "WINDOW_SIZE = 2"

text \<open>
  One pass of the loop body, from the \<open>log\<close> call to the end of the try/catch. The log
  is the list of lines written; the listeners \<open>log\<close> notifies are taken not to raise.
\<close>

definition process_window ::
  "process_batch \<Rightarrow> string \<Rightarrow> pdf_page_image list \<Rightarrow> nat \<Rightarrow> recon_state \<Rightarrow> recon_state" where
  "process_window processBatch sourceName chunk i st =
     (let st1 = st\<lparr>logged := logged st @ [WindowStart (i + 1)],
                    submitted := submitted st @ [(map ImagePart chunk, Some (i + 1))]\<rparr>
      in case processBatch (map ImagePart chunk) sourceName (Some (i + 1)) of
           Inl e \<Rightarrow> st1\<lparr>logged := logged st1 @ [WindowFailed e]\<rparr>
         | Inr windowQuestions \<Rightarrow>
             (case merge_window (allQuestions st1) windowQuestions of
                (allQ, None) \<Rightarrow> st1\<lparr>allQuestions := allQ\<rparr>
              | (allQ, Some e) \<Rightarrow>
                  st1\<lparr>allQuestions := allQ, logged := logged st1 @ [WindowFailed e]\<rparr>))"

function window_loop ::
  "process_batch \<Rightarrow> string \<Rightarrow> pdf_page_image list \<Rightarrow> nat \<Rightarrow> recon_state \<Rightarrow> recon_state" where
  "window_loop processBatch sourceName input i st =
     (if i < length input then
        (let chunk = slice i (i + WINDOW_SIZE) input in
         if length chunk = 0 then st
         else
           (let st' = process_window processBatch sourceName chunk i st in
            if i + WINDOW_SIZE \<ge> length input then st'
            else window_loop processBatch sourceName input (i + 1) st'))
      else st)"
  by pat_completeness auto
termination
  by (relation "measure (\<lambda>(processBatch, sourceName, input, i, st). length input - i)") auto

datatype gemini_input = TextInput string | PageImages "pdf_page_image list"

definition initial_state :: recon_state where
  "initial_state = \<lparr>allQuestions = [], logged = [], submitted = []\<rparr>"

text \<open>
  The whole function: the effects (log lines, oracle calls) and the settled promise,
  \<open>Inl\<close> a rejection. \<open>api_key\<close> tells whether \<open>VITE_GEMINI_API_KEY\<close> is set.
\<close>

definition parseQuestionsWithGemini ::
  "bool \<Rightarrow> process_batch \<Rightarrow> gemini_input \<Rightarrow> string \<Rightarrow> recon_state \<times> (error + question list)" where
  "parseQuestionsWithGemini api_key processBatch input sourceName =
     (if \<not> api_key then (initial_state, Inl ApiKeyMissing)
      else case input of
        TextInput s \<Rightarrow>
          (initial_state\<lparr>submitted := [([TextPart s], None)]\<rparr>,
           processBatch [TextPart s] sourceName None)
      | PageImages pages \<Rightarrow>
          (let st = window_loop processBatch sourceName pages 0 initial_state
           in (st, Inr (allQuestions st))))"

text \<open>The windows a run on a page array hands to \<open>processBatch\<close>, in order.\<close>

definition windows_submitted :: "process_batch \<Rightarrow> string \<Rightarrow> pdf_page_image list \<Rightarrow> (part list \<times> nat option) list" where
  "windows_submitted processBatch sourceName input =
     submitted (fst (parseQuestionsWithGemini True processBatch (PageImages input) sourceName))"

text \<open>
  The candidates of a run: what \<open>processBatch\<close> answered for each window handed to it,
  window after window, left to right over the document; a window whose call is
  rejected has none.
\<close>

definition candidates :: "process_batch \<Rightarrow> string \<Rightarrow> pdf_page_image list \<Rightarrow> question list" where
  "candidates processBatch sourceName input =
     concat (map (\<lambda>w. case processBatch (fst w) sourceName (snd w) of
                          Inl e \<Rightarrow> []
                        | Inr qs \<Rightarrow> qs)
              (windows_submitted processBatch sourceName input))"

subsection \<open>The specification's windows\<close>

text \<open>
  Written from the specification, for comparison with the loop: the windows of an
  \<open>N\<close>-page document as lists of 1-based page numbers, \<open>[1,2],[2,3],...,[N-1,N]\<close>, or
  \<open>[N]\<close> alone when \<open>N = 1\<close>.
\<close>

definition spec_windows :: "nat \<Rightarrow> nat list list" where
  "spec_windows N = (if N = 1 then [[1]] else map (\<lambda>i. [i, i + 1]) [1..<N])"

text \<open>The page numbers a call to \<open>processBatch\<close> covers: its chunk starts at \<open>pageNumber\<close>.\<close>

definition window_pages :: "part list \<times> nat option \<Rightarrow> nat list" where
  "window_pages w = (case snd w of None \<Rightarrow> [] | Some start \<Rightarrow> [start..<start + length (fst w)])"

definition pages_at :: "pdf_page_image list \<Rightarrow> nat list \<Rightarrow> part list" where
  "pages_at input w = map (\<lambda>k. ImagePart (input ! (k - 1))) w"

definition fingerprint :: "question \<Rightarrow> string option" where
  "fingerprint q = map_option substring_0_50 (qtext q)"

section \<open>Region cropper (imageUtils.ts, \<open>cropImageFromBase64\<close>)\<close>

text \<open>
  The \<open>box\<close> argument as JavaScript sees it. Its numbers come out of \<open>JSON.parse\<close>, so
  they are finite; they are reals here, and the arithmetic is exact (the rounding of
  doubles is not modelled).
\<close>

datatype box_arg = BoxNull | BoxUndefined | BoxNonArray | BoxArray "real list"

record pixel_rect =
  rect_x :: real
  rect_y :: real
  rect_w :: real
  rect_h :: real

datatype canvas_outcome = NoContext | Raised | Encoded string

text \<open>
  The browser: \<open>decode src\<close> is what assigning \<open>img.src\<close> leads to, \<open>onload\<close> with the
  natural width and height or \<open>onerror\<close> (\<open>None\<close>); \<open>render src r\<close> is the canvas work
  on the decoded image for the rectangle \<open>r\<close> (\<open>getContext\<close> returning null, an
  exception of \<open>drawImage\<close> or \<open>toDataURL\<close>, or the encoded JPEG).
\<close>

record browser =
  decode :: "string \<Rightarrow> (nat \<times> nat) option"
  render :: "string \<Rightarrow> pixel_rect \<Rightarrow> canvas_outcome"

text \<open>
  \<open>canvas.width\<close> and \<open>canvas.height\<close> are unsigned long attributes: the number assigned
  to them is cut down to whole pixels, and the image \<open>toDataURL\<close> encodes has that
  size. The sizes assigned here are never negative for a box on the 0-1000 scale;
  \<open>nat \<lfloor>v\<rfloor>\<close> is the attribute's value then.
\<close>

definition whole_pixels :: "real \<Rightarrow> nat" where
  "whole_pixels v = nat \<lfloor>v\<rfloor>"

text \<open>
  What a run does, in order: assigning \<open>img.src\<close>, the console calls, sizing the canvas
  (the width and height it has after the assignments), and the canvas work, which
  paints the canvas white and draws the region of the image given by the numbers the
  code computed.
\<close>

datatype crop_effect =
  SetImgSrc string
  | ConsoleWarn
  | ConsoleError
  | SizeCanvas nat nat
  | DrawRegion pixel_rect

definition startsWith :: "string \<Rightarrow> string \<Rightarrow> bool" where
  "startsWith s p = (take (length p) s = p)"

text \<open>The guard of the first line: \<open>Some\<close> exactly for an array of length 4.\<close>

fun box_coords :: "box_arg \<Rightarrow> (real \<times> real \<times> real \<times> real) option" where
  "box_coords (BoxArray [ymin, xmin, ymax, xmax]) = Some (ymin, xmin, ymax, xmax)"
| "box_coords _ = None"

definition image_src :: "string \<Rightarrow> string" where
  "image_src base64Image =
     (let srcPrefix = (if startsWith base64Image ''data:'' then []
                       else ''data:image/jpeg;base64,'')
      in srcPrefix @ base64Image)"

definition crop_rect :: "nat \<Rightarrow> nat \<Rightarrow> real \<Rightarrow> real \<Rightarrow> real \<Rightarrow> real \<Rightarrow> pixel_rect" where
  "crop_rect w h ymin xmin ymax xmax =
     (let y1 = (ymin / 1000) * real h;
          x1 = (xmin / 1000) * real w;
          y2 = (ymax / 1000) * real h;
          x2 = (xmax / 1000) * real w;
          cropWidth = x2 - x1;
          cropHeight = y2 - y1;
          padX = real w * 0.01;
          padY = real h * 0.01;
          finalX = max 0 (x1 - padX);
          finalY = max 0 (y1 - padY);
          finalW = min (real w - finalX) (cropWidth + (padX * 2));
          finalH = min (real h - finalY) (cropHeight + (padY * 2))
      in \<lparr>rect_x = finalX, rect_y = finalY, rect_w = finalW, rect_h = finalH\<rparr>)"

text \<open>The body of the \<open>try\<close> block of \<open>onload\<close>; \<open>Inl\<close> is an exception raised in it.\<close>

definition try_body ::
  "browser \<Rightarrow> string \<Rightarrow> nat \<Rightarrow> nat \<Rightarrow> real \<times> real \<times> real \<times> real
     \<Rightarrow> crop_effect list \<times> (error + string option)" where
  "try_body env src w h box =
     (case box of (ymin, xmin, ymax, xmax) \<Rightarrow>
        if ymin \<ge> ymax \<or> xmin \<ge> xmax then ([ConsoleWarn], Inr None)
        else
          (let r = crop_rect w h ymin xmin ymax xmax;
               sized = SizeCanvas (whole_pixels (rect_w r)) (whole_pixels (rect_h r))
           in case render env src r of
                NoContext \<Rightarrow> ([sized], Inr None)
              | Raised \<Rightarrow> ([sized, DrawRegion r], Inl DOMException)
              | Encoded jpeg \<Rightarrow> ([sized, DrawRegion r], Inr (Some jpeg))))"

text \<open>
  The effects in order and the settled promise; \<open>Inl\<close> would be a rejection.
\<close>

definition cropImageFromBase64 ::
  "browser \<Rightarrow> string \<Rightarrow> box_arg \<Rightarrow> crop_effect list \<times> (error + string option)" where
  "cropImageFromBase64 env base64Image box =
     (case box_coords box of
        None \<Rightarrow> ([], Inr None)
      | Some coords \<Rightarrow>
          (let src = image_src base64Image
           in case decode env src of
                None \<Rightarrow> ([SetImgSrc src, ConsoleError], Inr None)
              | Some (w, h) \<Rightarrow>
                  (case try_body env src w h coords of
                     (effects, Inl e) \<Rightarrow> (SetImgSrc src # effects @ [ConsoleError], Inr None)
                   | (effects, Inr r) \<Rightarrow> (SetImgSrc src # effects, Inr r))))"

subsection \<open>The cropping rectangle in the specification's words\<close>




section \<open>Interactive crop selector (ImageCropModal.tsx)\<close>

text \<open>
  Pointer coordinates are JavaScript numbers, and \<open>getMousePos\<close> divides by the
  displayed size, which is 0 for a canvas that is not laid out: the quotient is then
  \<open>Infinity\<close> or \<open>NaN\<close>, where HOL's \<open>x / 0\<close> is 0. The non-finite values are
  constructors of their own; finite arithmetic is exact.
\<close>

datatype js_number = Num real | NaN | PosInf | NegInf

fun js_sign :: "js_number \<Rightarrow> real" where
  "js_sign (Num a) = sgn a"
| "js_sign PosInf = 1"
| "js_sign NegInf = - 1"
| "js_sign NaN = 0"

definition js_div :: "real \<Rightarrow> real \<Rightarrow> js_number" where
  "js_div a b =
     (if b \<noteq> 0 then Num (a / b)
      else if a > 0 then PosInf else if a < 0 then NegInf else NaN)"

fun js_mul :: "js_number \<Rightarrow> js_number \<Rightarrow> js_number" where
  "js_mul (Num a) (Num b) = Num (a * b)"
| "js_mul NaN b = NaN"
| "js_mul a NaN = NaN"
| "js_mul a b =
     (if js_sign a * js_sign b > 0 then PosInf
      else if js_sign a * js_sign b < 0 then NegInf else NaN)"

fun js_sub :: "js_number \<Rightarrow> js_number \<Rightarrow> js_number" where
  "js_sub (Num a) (Num b) = Num (a - b)"
| "js_sub NaN b = NaN"
| "js_sub a NaN = NaN"
| "js_sub PosInf PosInf = NaN"
| "js_sub NegInf NegInf = NaN"
| "js_sub PosInf b = PosInf"
| "js_sub NegInf b = NegInf"
| "js_sub a PosInf = NegInf"
| "js_sub a NegInf = PosInf"

fun js_abs :: "js_number \<Rightarrow> js_number" where
  "js_abs (Num a) = Num \<bar>a\<bar>"
| "js_abs NaN = NaN"
| "js_abs PosInf = PosInf"
| "js_abs NegInf = PosInf"

fun js_min :: "js_number \<Rightarrow> js_number \<Rightarrow> js_number" where
  "js_min (Num a) (Num b) = Num (min a b)"
| "js_min NaN b = NaN"
| "js_min a NaN = NaN"
| "js_min NegInf b = NegInf"
| "js_min a NegInf = NegInf"
| "js_min PosInf b = b"
| "js_min a PosInf = a"

fun js_lt :: "js_number \<Rightarrow> js_number \<Rightarrow> bool" where
  "js_lt (Num a) (Num b) = (a < b)"
| "js_lt NaN b = False"
| "js_lt a NaN = False"
| "js_lt PosInf b = False"
| "js_lt a NegInf = False"
| "js_lt NegInf b = True"
| "js_lt a PosInf = True"

record pos =
  pos_x :: js_number
  pos_y :: js_number

record dom_rect =
  rect_left :: real
  rect_top :: real
  rect_width :: real
  rect_height :: real

text \<open>The mounted canvas: its native size and \<open>getBoundingClientRect()\<close>.\<close>

record canvas =
  canvas_width :: nat
  canvas_height :: nat
  bounding :: dom_rect

record mouse_event =
  clientX :: real
  clientY :: real

text \<open>The component's state; \<open>canvasRef\<close> is \<open>None\<close> while no canvas is mounted.\<close>

record crop_modal =
  canvasRef :: "canvas option"
  pdfPages :: "string list"
  currentPage :: nat
  isSelecting :: bool
  startPos :: pos
  endPos :: pos

definition getMousePos :: "canvas option \<Rightarrow> mouse_event \<Rightarrow> pos" where
  "getMousePos cref e =
     (case cref of
        None \<Rightarrow> \<lparr>pos_x = Num 0, pos_y = Num 0\<rparr>
      | Some cv \<Rightarrow>
          (let rect = bounding cv;
               scaleX = js_div (real (canvas_width cv)) (rect_width rect);
               scaleY = js_div (real (canvas_height cv)) (rect_height rect)
           in \<lparr>pos_x = js_mul (Num (clientX e - rect_left rect)) scaleX,
               pos_y = js_mul (Num (clientY e - rect_top rect)) scaleY\<rparr>))"

definition handleMouseDown :: "mouse_event \<Rightarrow> crop_modal \<Rightarrow> crop_modal" where
  "handleMouseDown e s =
     (let p = getMousePos (canvasRef s) e
      in s\<lparr>startPos := p, endPos := p, isSelecting := True\<rparr>)"

definition handleMouseMove :: "mouse_event \<Rightarrow> crop_modal \<Rightarrow> crop_modal" where
  "handleMouseMove e s =
     (if \<not> isSelecting s then s else s\<lparr>endPos := getMousePos (canvasRef s) e\<rparr>)"

definition handleMouseUp :: "crop_modal \<Rightarrow> crop_modal" where
  "handleMouseUp s = s\<lparr>isSelecting := False\<rparr>"

text \<open>
  What a click on the confirm button leads to: nothing at all, the \<open>alert\<close>, or the
  crop of the rectangle \<open>x, y, width, height\<close> from the current page, whose image is
  handed to \<open>onCropComplete\<close> once it has loaded.
\<close>

datatype confirm_outcome =
  Silent
  | Alert string
  | Crop "string option" js_number js_number js_number js_number

definition handleCropConfirm :: "crop_modal \<Rightarrow> crop_modal \<times> confirm_outcome" where
  "handleCropConfirm s =
     (case canvasRef s of
        None \<Rightarrow> (s, Silent)
      | Some cv \<Rightarrow>
          (let x = js_min (pos_x (startPos s)) (pos_x (endPos s));
               y = js_min (pos_y (startPos s)) (pos_y (endPos s));
               width = js_abs (js_sub (pos_x (endPos s)) (pos_x (startPos s)));
               height = js_abs (js_sub (pos_y (endPos s)) (pos_y (startPos s)))
           in if js_lt width (Num 10) \<or> js_lt height (Num 10)
              then (s, Alert ''Selection too small. Please select a larger area.'')
              else (s, Crop (if currentPage s < length (pdfPages s)
                             then Some (pdfPages s ! currentPage s) else None)
                            x y width height)))"

text \<open>The width and height of the rectangle between the two stored corners.\<close>

definition selection_width :: "crop_modal \<Rightarrow> js_number" where
  "selection_width s = js_abs (js_sub (pos_x (endPos s)) (pos_x (startPos s)))"

definition selection_height :: "crop_modal \<Rightarrow> js_number" where
  "selection_height s = js_abs (js_sub (pos_y (endPos s)) (pos_y (startPos s)))"

definition is_crop :: "confirm_outcome \<Rightarrow> bool" where
  "is_crop out = (case out of Crop src x y w h \<Rightarrow> True | _ \<Rightarrow> False)"

section \<open>Export (exportService.ts, \<open>uploadImagesToFirebaseAndCreateJSON\<close>)\<close>

text \<open>\<open>img && img.startsWith('data:')\<close>: null, undefined and the empty string are falsy.\<close>

definition is_data_url :: "string option \<Rightarrow> bool" where
  "is_data_url img = (case img of None \<Rightarrow> False | Some s \<Rightarrow> s \<noteq> [] \<and> startsWith s ''data:'')"

definition option_images :: "question \<Rightarrow> nat" where
  "option_images q = length (filter (\<lambda>opt. is_data_url (opt_image opt)) (options q))"

definition totalImages :: "question list \<Rightarrow> nat" where
  "totalImages questions =
     foldl (\<lambda>count q. count + ((if is_data_url (image q) then 1 else 0) + option_images q))
       0 questions"

text \<open>
  Each question is handled by an async function of its own; all are started together
  (\<open>Promise.all\<close> over \<open>questions.map\<close>) and run interleaved on one thread. The function
  first awaits the upload of the main image, if there is one, and only then starts the
  uploads of its option images, again all together. Between two \<open>await\<close>s nothing
  else runs, so \<open>uploadCount++\<close> and the call of \<open>onProgress\<close> that follows it are one
  step. A thread records what its question still has to do.
\<close>

record upload_thread =
  main_in_flight :: bool
  options_waiting :: nat
  options_in_flight :: nat
  rejected :: bool

definition start_thread :: "question \<Rightarrow> upload_thread" where
  "start_thread q =
     (if is_data_url (image q)
      then \<lparr>main_in_flight = True, options_waiting = option_images q,
            options_in_flight = 0, rejected = False\<rparr>
      else \<lparr>main_in_flight = False, options_waiting = 0,
            options_in_flight = option_images q, rejected = False\<rparr>)"

record upload_state =
  uploadCount :: nat
  progress :: "(nat \<times> nat) list"
  threads :: "upload_thread list"

text \<open>
  \<open>Settles i ok\<close>: an upload in flight for question \<open>i\<close> settles, fulfilled (\<open>ok\<close>) or
  rejected; a rejection also stands for \<open>base64ToBlob\<close> raising on the image. The
  network decides the order of these events.
\<close>

datatype upload_event = Settles nat bool

definition report :: "bool \<Rightarrow> nat \<Rightarrow> upload_state \<Rightarrow> upload_state" where
  "report onProgress totalCount s =
     (let s1 = s\<lparr>uploadCount := uploadCount s + 1\<rparr>
      in if onProgress then s1\<lparr>progress := progress s1 @ [(uploadCount s1, totalCount)]\<rparr> else s1)"

definition upload_step :: "bool \<Rightarrow> nat \<Rightarrow> upload_event \<Rightarrow> upload_state \<Rightarrow> upload_state option" where
  "upload_step onProgress totalCount ev s =
     (case ev of Settles i ok \<Rightarrow>
        if i \<ge> length (threads s) then None
        else
          (let t = threads s ! i in
           if main_in_flight t then
             (if ok then
                Some ((report onProgress totalCount s)
                  \<lparr>threads := (threads s)[i := t\<lparr>main_in_flight := False,
                      options_waiting := 0, options_in_flight := options_waiting t\<rparr>]\<rparr>)
              else Some (s\<lparr>threads := (threads s)[i := t\<lparr>main_in_flight := False,
                      rejected := True\<rparr>]\<rparr>))
           else if options_in_flight t > 0 then
             (if ok then
                Some ((report onProgress totalCount s)
                  \<lparr>threads := (threads s)[i := t\<lparr>options_in_flight := options_in_flight t - 1\<rparr>]\<rparr>)
              else Some (s\<lparr>threads := (threads s)[i := t\<lparr>options_in_flight := options_in_flight t - 1,
                      rejected := True\<rparr>]\<rparr>))
           else None))"

fun upload_run :: "bool \<Rightarrow> nat \<Rightarrow> upload_event list \<Rightarrow> upload_state \<Rightarrow> upload_state option" where
  "upload_run onProgress totalCount [] s = Some s"
| "upload_run onProgress totalCount (ev # evs) s =
     (case upload_step onProgress totalCount ev s of
        None \<Rightarrow> None
      | Some s' \<Rightarrow> upload_run onProgress totalCount evs s')"

text \<open>
  The operation on \<open>questions\<close> under a schedule of events: the state it starts in
  and the events applied to it. \<open>None\<close> is a schedule that names an upload that is not
  in flight.
\<close>

definition upload_start :: "question list \<Rightarrow> upload_state" where
  "upload_start questions = \<lparr>uploadCount = 0, progress = [], threads = map start_thread questions\<rparr>"

definition uploadImagesToFirebaseAndCreateJSON ::
  "question list \<Rightarrow> bool \<Rightarrow> upload_event list \<Rightarrow> upload_state option" where
  "uploadImagesToFirebaseAndCreateJSON questions onProgress schedule =
     upload_run onProgress (totalImages questions) schedule (upload_start questions)"

text \<open>Nothing is in flight any more; and, on top of that, no upload was rejected.\<close>

definition settled :: "upload_state \<Rightarrow> bool" where
  "settled s = list_all (\<lambda>t. \<not> main_in_flight t \<and> options_in_flight t = 0) (threads s)"

definition fulfilled :: "upload_state \<Rightarrow> bool" where
  "fulfilled s = (settled s \<and> list_all (\<lambda>t. \<not> rejected t) (threads s))"

text \<open>The calls the specification expects: \<open>(1, T), (2, T), ..., (n, T)\<close>.\<close>

definition counting :: "nat \<Rightarrow> nat \<Rightarrow> (nat \<times> nat) list" where
  "counting n T = map (\<lambda>k. (k, T)) [1..<Suc n]"

section \<open>Question card (QuestionCard.tsx, \<open>handleOptionChange\<close>)\<close>

text \<open>A \<open>field\<close> of \<open>Option\<close> with the \<open>value\<close> to store in it.\<close>

datatype option_field =
  FieldText string
  | FieldIsCorrect bool
  | FieldImage "string option"

fun set_field :: "option_field \<Rightarrow> opt \<Rightarrow> opt" where
  "set_field (FieldText v) opt = opt\<lparr>opt_text := v\<rparr>"
| "set_field (FieldIsCorrect v) opt = opt\<lparr>isCorrect := v\<rparr>"
| "set_field (FieldImage v) opt = opt\<lparr>opt_image := v\<rparr>"

text \<open>\<open>forEach((o, i) => { if (i !== optIndex) o.isCorrect = false; })\<close>, on positions from \<open>k\<close>.\<close>

fun clear_others :: "nat \<Rightarrow> nat \<Rightarrow> opt list \<Rightarrow> opt list" where
  "clear_others optIndex k [] = []"
| "clear_others optIndex k (opt # rest) =
     (if k \<noteq> optIndex then opt\<lparr>isCorrect := False\<rparr> else opt) # clear_others optIndex (Suc k) rest"

text \<open>
  \<open>newOptions\<close> is a shallow copy: apart from the object written at \<open>optIndex\<close>, its
  elements are the option objects of \<open>question\<close> itself, and the \<open>forEach\<close> writes
  through them. The result is the pair of \<open>question\<close> as it is after the call and the
  question handed to \<open>onUpdate\<close>. The card calls the handler with the index of
  an option it renders; for an index beyond the array JavaScript would grow the array
  around a new object that has the one field only, which \<open>opt\<close> cannot hold: \<open>None\<close>.
\<close>

definition handleOptionChange ::
  "question \<Rightarrow> nat \<Rightarrow> option_field \<Rightarrow> (question \<times> question) option" where
  "handleOptionChange question optIndex fv =
     (if optIndex \<ge> length (options question) then None
      else
        (let newOptions = (options question)[optIndex := set_field fv (options question ! optIndex)]
         in if fv = FieldIsCorrect True \<and> qtype question = mcq
            then Some (question\<lparr>options := clear_others optIndex 0 (options question)\<rparr>,
                       question\<lparr>options := clear_others optIndex 0 newOptions\<rparr>)
            else Some (question, question\<lparr>options := newOptions\<rparr>)))"

section \<open>Auxiliary definitions for the proofs\<close>

text \<open>Where the loop started at \<open>i\<close> stops: the starts it visits are \<open>[i..<last_start N i]\<close>.\<close>

definition last_start :: "nat \<Rightarrow> nat \<Rightarrow> nat" where
  "last_start N i = (if i < N then max (Suc i) (N - 1) else i)"


text \<open>
  The questions of \<open>qs\<close> whose fingerprint is neither in \<open>seen\<close> nor carried by an
  earlier question of \<open>qs\<close>, in the order of \<open>qs\<close>.
\<close>

fun news :: "string option list \<Rightarrow> question list \<Rightarrow> question list" where
  "news seen [] = []"
| "news seen (q # qs) =
     (if fingerprint q \<in> set seen then news seen qs
      else q # news (fingerprint q # seen) qs)"

text \<open>The questions \<open>processBatch\<close> answers for the window that starts at index \<open>j\<close>.\<close>

definition answer :: "process_batch \<Rightarrow> string \<Rightarrow> pdf_page_image list \<Rightarrow> nat \<Rightarrow> question list" where
  "answer pb src input j =
     (case pb (map ImagePart (slice j (j + 2) input)) src (Some (j + 1)) of
        Inl e \<Rightarrow> [] | Inr qs \<Rightarrow> qs)"


text \<open>
  The images a thread will still report if nothing fails, and the invariant of a run:
  the calls so far count from 1 to \<open>uploadCount\<close>, and what is counted plus what can
  still be counted is the total, or less once an upload was rejected.
\<close>

definition weight :: "upload_thread \<Rightarrow> nat" where
  "weight t = (if main_in_flight t then 1 + options_waiting t else options_in_flight t)"

definition upload_inv :: "nat \<Rightarrow> upload_state \<Rightarrow> bool" where
  "upload_inv T s \<longleftrightarrow>
     progress s = counting (uploadCount s) T
     \<and> list_all (\<lambda>t. main_in_flight t \<longrightarrow> options_in_flight t = 0) (threads s)
     \<and> uploadCount s + sum_list (map weight (threads s)) \<le> T
     \<and> (list_all (\<lambda>t. \<not> rejected t) (threads s) \<longrightarrow>
          uploadCount s + sum_list (map weight (threads s)) = T)"


text \<open>
  A schedule in which every upload succeeds: the uploads of the first \<open>k\<close> questions,
  question after question.
\<close>

definition all_succeed :: "question list \<Rightarrow> nat \<Rightarrow> upload_event list" where
  "all_succeed questions k =
     concat (map (\<lambda>i. replicate (weight (start_thread (questions ! i))) (Settles i True)) [0..<k])"


section \<open>Example inputs\<close>

definition example_pages :: "pdf_page_image list" where
  "example_pages =
     [\<lparr>data = ''AAAA'', mimeType = ''image/jpeg''\<rparr>,
      \<lparr>data = ''BBBB'', mimeType = ''image/jpeg''\<rparr>,
      \<lparr>data = ''CCCC'', mimeType = ''image/jpeg''\<rparr>]"

definition example_question :: "string \<Rightarrow> question" where
  "example_question s = \<lparr>qtext = Some s, qtype = mcq, options = [], image = None\<rparr>"

text \<open>Two stems that agree on their first 50 code units and differ in the 51st.\<close>

definition stem_one :: string where
  "stem_one = ''aaaaaaaaaaaaaaaaaaaaaaaaaaaaaaaaaaaaaaaaaaaaaaaaaa1''"

definition stem_two :: string where
  "stem_two = ''aaaaaaaaaaaaaaaaaaaaaaaaaaaaaaaaaaaaaaaaaaaaaaaaaa2''"

text \<open>
  An oracle that answers two questions for the window at page 1, a duplicate of the
  first and a new one for the window at page 2, and fails on anything else.
\<close>

definition example_oracle :: process_batch where
  "example_oracle parts sourceName pageNumber =
     (if pageNumber = Some 1 then Inr [example_question stem_one, example_question ''b'']
      else if pageNumber = Some 2 then Inr [example_question stem_two, example_question ''c'']
      else Inl (OracleError ''offline''))"

text \<open>
  An oracle whose answer for the window at page 1 is a record without \<open>text\<close>, and
  whose answer for the window at page 2 is a well-formed question.
\<close>

definition textless_question :: question where
  "textless_question = \<lparr>qtext = None, qtype = mcq, options = [], image = None\<rparr>"

definition textless_oracle :: process_batch where
  "textless_oracle parts sourceName pageNumber =
     (if pageNumber = Some 1 then Inr [textless_question]
      else if pageNumber = Some 2 then Inr [example_question ''c'']
      else Inl (OracleError ''offline''))"

text \<open>A browser that decodes every source to a 1000 by 1000 raster and encodes every region.\<close>

definition example_browser :: browser where
  "example_browser = \<lparr>decode = (\<lambda>src. Some (1000, 1000)), render = (\<lambda>src r. Encoded ''jpeg'')\<rparr>"


text \<open>A one-page document.\<close>

definition one_page :: "pdf_page_image list" where
  "one_page = [\<lparr>data = ''AAAA'', mimeType = ''image/jpeg''\<rparr>]"

text \<open>
  An oracle whose answer for the only window holds a record without \<open>text\<close> between two
  well-formed questions with different stems.
\<close>

definition mixed_oracle :: process_batch where
  "mixed_oracle parts sourceName pageNumber =
     (if pageNumber = Some 1
      then Inr [example_question ''a'', textless_question, example_question ''b'']
      else Inl (OracleError ''offline''))"

text \<open>A browser that cannot decode anything.\<close>

definition broken_browser :: browser where
  "broken_browser = \<lparr>decode = (\<lambda>src. None), render = (\<lambda>src r. Raised)\<rparr>"

text \<open>
  A canvas of 1200 by 1600 native pixels shown at 300 by 500: the scale is 4 across
  and 3.2 down.
\<close>

definition example_canvas :: canvas where
  "example_canvas =
     \<lparr>canvas_width = 1200, canvas_height = 1600,
      bounding = \<lparr>rect_left = 40, rect_top = 100, rect_width = 300, rect_height = 500\<rparr>\<rparr>"

text \<open>A selection 5 pixels wide and 190 high, on a mounted canvas and with no canvas.\<close>

definition small_selection :: crop_modal where
  "small_selection =
     \<lparr>canvasRef = Some example_canvas, pdfPages = [''page1''], currentPage = 0,
      isSelecting = False,
      startPos = \<lparr>pos_x = Num 10, pos_y = Num 10\<rparr>,
      endPos = \<lparr>pos_x = Num 15, pos_y = Num 200\<rparr>\<rparr>"

definition unmounted_selection :: crop_modal where
  "unmounted_selection = small_selection\<lparr>canvasRef := None\<rparr>"

text \<open>A question with two options, the first marked correct, the second with an image.\<close>

definition example_mcq :: question where
  "example_mcq =
     \<lparr>qtext = Some ''Which one?'', qtype = mcq,
      options = [\<lparr>opt_text = ''A'', isCorrect = True, opt_image = None\<rparr>,
                 \<lparr>opt_text = ''B'', isCorrect = False, opt_image = Some ''data:image/png;base64,AA==''\<rparr>],
      image = Some ''data:image/png;base64,AA==''\<rparr>"

section \<open>The windows of a run\<close>


declare window_loop.simps [simp del]

lemma process_window_submitted:
  "submitted (process_window pb src chunk i st) = submitted st @ [(map ImagePart chunk, Some (i + 1))]"
  by (simp add: process_window_def Let_def split: sum.splits prod.splits option.splits)

lemma loop_submitted:
  "submitted (window_loop pb src input i st) =
     submitted st @ map (\<lambda>j. (map ImagePart (slice j (j + 2) input), Some (j + 1)))
       [i..<last_start (length input) i]"
proof (induction pb src input i st rule: window_loop.induct)
  case (1 pb src input i st)
  show ?case
  proof (cases "i < length input")
    case False
    then show ?thesis by (simp add: window_loop.simps last_start_def)
  next
    case True
    then have ne: "length (slice i (i + WINDOW_SIZE) input) \<noteq> 0"
      by (simp add: slice_def WINDOW_SIZE_def)
    show ?thesis
    proof (cases "i + WINDOW_SIZE \<ge> length input")
      case True
      with \<open>i < length input\<close> ne show ?thesis
        by (subst window_loop.simps)
           (simp add: Let_def process_window_submitted last_start_def WINDOW_SIZE_def)
    next
      case False
      then have ls: "last_start (length input) i = last_start (length input) (i + 1)"
        by (auto simp: last_start_def WINDOW_SIZE_def)
      have lt: "i < last_start (length input) (i + 1)"
        using False by (auto simp: last_start_def WINDOW_SIZE_def)
      from False \<open>i < length input\<close> ne
      have "window_loop pb src input i st =
              window_loop pb src input (i + 1)
                (process_window pb src (slice i (i + WINDOW_SIZE) input) i st)"
        by (subst window_loop.simps) (simp add: Let_def)
      then show ?thesis
        using "1.IH"[OF \<open>i < length input\<close> refl _ refl] ne False lt
        by (simp add: process_window_submitted ls WINDOW_SIZE_def upt_conv_Cons)
    qed
  qed
qed

lemma windows_submitted_eq:
  "windows_submitted pb src input =
     map (\<lambda>j. (map ImagePart (slice j (j + 2) input), Some (j + 1)))
       [0..<last_start (length input) 0]"
  by (simp add: windows_submitted_def parseQuestionsWithGemini_def Let_def loop_submitted
      initial_state_def)

lemma slice_two:
  assumes "j + 1 < length input"
  shows "slice j (j + 2) input = [input ! j, input ! (j + 1)]"
proof -
  have "drop j input = input ! j # drop (Suc j) input"
    using assms by (simp add: Cons_nth_drop_Suc)
  also have "drop (Suc j) input = input ! (Suc j) # drop (Suc (Suc j)) input"
    using assms by (simp add: Cons_nth_drop_Suc)
  finally have "take 2 (drop j input) = [input ! j, input ! (j + 1)]"
    by (simp add: numeral_2_eq_2)
  then show ?thesis by (simp add: slice_def)
qed

lemma slice_one:
  assumes "j < length input" "\<not> j + 1 < length input"
  shows "slice j (j + 2) input = [input ! j]"
proof -
  have "drop j input = input ! j # drop (Suc j) input"
    using assms(1) by (rule Cons_nth_drop_Suc[symmetric])
  also have "drop (Suc j) input = []" using assms by simp
  finally have "take 2 (drop j input) = [input ! j]"
    by simp
  then show ?thesis by (simp add: slice_def)
qed

lemma window_pages_two:
  "j + 1 < length input \<Longrightarrow>
     window_pages (map ImagePart (slice j (j + 2) input), Some (j + 1)) = [j + 1, j + 2]"
  using slice_two[of j input] by (simp add: window_pages_def upt_rec)

lemma window_pages_one:
  "j < length input \<Longrightarrow> \<not> j + 1 < length input \<Longrightarrow>
     window_pages (map ImagePart (slice j (j + 2) input), Some (j + 1)) = [j + 1]"
  using slice_one[of j input] by (simp add: window_pages_def upt_rec)

lemma spec_windows_shift:
  "2 \<le> N \<Longrightarrow> spec_windows N = map (\<lambda>j. [j + 1, j + 2]) [0..<N - 1]"
proof -
  assume "2 \<le> N"
  then have "[1..<N] = map Suc [0..<N - 1]"
    by (simp add: map_Suc_upt)
  then show ?thesis
    using \<open>2 \<le> N\<close> by (simp add: spec_windows_def comp_def)
qed

lemma submitted_pages:
  "map window_pages (windows_submitted pb src input) = spec_windows (length input)"
proof -
  consider "length input = 0" | "length input = 1" | "2 \<le> length input" by linarith
  then show ?thesis
  proof cases
    case 1
    then show ?thesis
      by (simp add: windows_submitted_eq last_start_def spec_windows_def)
  next
    case 2
    have "window_pages (map ImagePart (slice 0 (0 + 2) input), Some (0 + 1)) = [0 + 1]"
      by (rule window_pages_one) (use 2 in simp_all)
    with 2 show ?thesis
      by (simp add: windows_submitted_eq last_start_def spec_windows_def)
  next
    case 3
    then have ls: "last_start (length input) 0 = length input - 1"
      by (auto simp: last_start_def)
    have "map window_pages (windows_submitted pb src input) =
            map (\<lambda>j. window_pages (map ImagePart (slice j (j + 2) input), Some (j + 1)))
              [0..<length input - 1]"
      by (simp only: windows_submitted_eq ls map_map comp_def)
    also have "\<dots> = map (\<lambda>j. [j + 1, j + 2]) [0..<length input - 1]"
    proof (rule map_cong[OF refl])
      fix j assume "j \<in> set [0..<length input - 1]"
      then have "j + 1 < length input" by auto
      then show "window_pages (map ImagePart (slice j (j + 2) input), Some (j + 1)) = [j + 1, j + 2]"
        by (rule window_pages_two)
    qed
    finally show ?thesis using 3 by (simp add: spec_windows_shift)
  qed
qed

lemma submitted_parts:
  assumes "w \<in> set (windows_submitted pb src input)"
  shows "fst w = pages_at input (window_pages w)"
proof -
  from assms obtain j where j: "j < last_start (length input) 0"
    and w: "w = (map ImagePart (slice j (j + 2) input), Some (j + 1))"
    by (auto simp: windows_submitted_eq)
  from j have jl: "j < length input"
    by (cases "length input") (auto simp: last_start_def split: if_splits)
  show ?thesis
  proof (cases "j + 1 < length input")
    case True
    then show ?thesis
      unfolding w using window_pages_two[of j input] slice_two[of j input]
      by (simp add: pages_at_def)
  next
    case False
    with jl show ?thesis
      unfolding w using window_pages_one[of j input] slice_one[of j input]
      by (simp add: pages_at_def)
  qed
qed

lemma spec_windows_cover:
  assumes "1 \<le> k" "k \<le> N"
  shows "\<exists>p \<in> set (spec_windows N). k \<in> set p"
proof (cases "N = 1")
  case True
  with assms show ?thesis by (simp add: spec_windows_def)
next
  case False
  with assms have N: "2 \<le> N" by simp
  show ?thesis
  proof (cases "k < N")
    case True
    with assms have "[k, k + 1] \<in> set (spec_windows N)"
      using False by (auto simp: spec_windows_def)
    then show ?thesis by force
  next
    case False
    with assms have "k = N" by simp
    with N have "[k - 1, k - 1 + 1] \<in> set (spec_windows N)"
      using \<open>N \<noteq> 1\<close> by (auto simp: spec_windows_def)
    moreover have "k \<in> set [k - 1, k - 1 + 1]" using assms by simp
    ultimately show ?thesis by blast
  qed
qed

lemma spec_windows_within:
  assumes "p \<in> set (spec_windows N)"
  shows "set p \<subseteq> {1..N}"
  using assms by (auto simp: spec_windows_def split: if_splits)

lemma spec_windows_adjacent:
  assumes "1 \<le> k" "k < N"
  shows "\<exists>!j. j < length (spec_windows N) \<and> k \<in> set (spec_windows N ! j)
            \<and> Suc k \<in> set (spec_windows N ! j)"
proof -
  from assms have N: "2 \<le> N" by simp
  have len: "length (spec_windows N) = N - 1"
    using N by (simp add: spec_windows_shift)
  have nth: "\<And>j. j < N - 1 \<Longrightarrow> spec_windows N ! j = [j + 1, j + 2]"
    using N by (simp add: spec_windows_shift)
  show ?thesis
  proof (rule ex1I[of _ "k - 1"])
    show "k - 1 < length (spec_windows N) \<and> k \<in> set (spec_windows N ! (k - 1))
            \<and> Suc k \<in> set (spec_windows N ! (k - 1))"
      using assms by (simp add: len nth)
  next
    fix j
    assume "j < length (spec_windows N) \<and> k \<in> set (spec_windows N ! j)
              \<and> Suc k \<in> set (spec_windows N ! j)"
    then show "j = k - 1" by (auto simp: len nth)
  qed
qed

text \<open>
  Claim C1. For every page array of \<open>N\<close> pages, the API key being set and whatever the
  oracle answers, the windows handed to \<open>processBatch\<close> are, in this order,
  \<open>[1,2],[2,3],...,[N-1,N]\<close>, or \<open>[1]\<close> alone when \<open>N = 1\<close>; each window carries the page
  images at its page numbers; every page from 1 to \<open>N\<close> is in some window; every pair
  of adjacent pages is together in exactly one window; and no window reaches beyond
  page \<open>N\<close>.
\<close>

theorem reconciler_windows:
  "map window_pages (windows_submitted pb src input) = spec_windows (length input)
   \<and> (\<forall>w \<in> set (windows_submitted pb src input). fst w = pages_at input (window_pages w))
   \<and> (\<forall>k \<in> {1..length input}. \<exists>w \<in> set (windows_submitted pb src input). k \<in> set (window_pages w))
   \<and> (\<forall>k \<in> {1..<length input}.
         \<exists>!j. j < length (windows_submitted pb src input)
              \<and> k \<in> set (window_pages (windows_submitted pb src input ! j))
              \<and> Suc k \<in> set (window_pages (windows_submitted pb src input ! j)))
   \<and> (\<forall>w \<in> set (windows_submitted pb src input). set (window_pages w) \<subseteq> {1..length input})"
proof -
  let ?ws = "windows_submitted pb src input"
  let ?N = "length input"
  have eq: "map window_pages ?ws = spec_windows ?N" by (rule submitted_pages)
  have len: "length ?ws = length (spec_windows ?N)"
    using arg_cong[OF eq, of length] by simp
  have nth: "\<And>j. j < length ?ws \<Longrightarrow> window_pages (?ws ! j) = spec_windows ?N ! j"
    using eq by (metis nth_map)
  have mem: "\<And>w. w \<in> set ?ws \<Longrightarrow> window_pages w \<in> set (spec_windows ?N)"
    using eq by (metis imageI set_map)
  have c2: "\<forall>w \<in> set ?ws. fst w = pages_at input (window_pages w)"
    using submitted_parts by blast
  have c3: "\<forall>k \<in> {1..?N}. \<exists>w \<in> set ?ws. k \<in> set (window_pages w)"
  proof
    fix k assume "k \<in> {1..?N}"
    then obtain p where "p \<in> set (spec_windows ?N)" "k \<in> set p"
      using spec_windows_cover[of k ?N] by auto
    then have "p \<in> set (map window_pages ?ws)" using eq by simp
    then show "\<exists>w \<in> set ?ws. k \<in> set (window_pages w)"
      using \<open>k \<in> set p\<close> by auto
  qed
  have c4: "\<forall>k \<in> {1..<?N}. \<exists>!j. j < length ?ws \<and> k \<in> set (window_pages (?ws ! j))
              \<and> Suc k \<in> set (window_pages (?ws ! j))"
  proof
    fix k assume "k \<in> {1..<?N}"
    then have "\<exists>!j. j < length (spec_windows ?N) \<and> k \<in> set (spec_windows ?N ! j)
            \<and> Suc k \<in> set (spec_windows ?N ! j)"
      using spec_windows_adjacent[of k ?N] by simp
    then show "\<exists>!j. j < length ?ws \<and> k \<in> set (window_pages (?ws ! j))
              \<and> Suc k \<in> set (window_pages (?ws ! j))"
      using len nth by (metis (no_types, lifting))
  qed
  have c5: "\<forall>w \<in> set ?ws. set (window_pages w) \<subseteq> {1..?N}"
    using mem spec_windows_within by blast
  from eq c2 c3 c4 c5 show ?thesis by blast
qed

text \<open>
  C1 at a document of three pages: the windows are \<open>[1,2]\<close> and \<open>[2,3]\<close>, page 3 is in a
  window, and exactly one window holds pages 2 and 3 together.
\<close>

theorem reconciler_windows_witness:
  "map window_pages (windows_submitted example_oracle ''doc'' example_pages) = [[1, 2], [2, 3]]
   \<and> (\<exists>w \<in> set (windows_submitted example_oracle ''doc'' example_pages). 3 \<in> set (window_pages w))
   \<and> (\<exists>!j. j < length (windows_submitted example_oracle ''doc'' example_pages)
          \<and> 2 \<in> set (window_pages (windows_submitted example_oracle ''doc'' example_pages ! j))
          \<and> Suc 2 \<in> set (window_pages (windows_submitted example_oracle ''doc'' example_pages ! j)))"
proof -
  note t = reconciler_windows[of example_oracle "''doc''" example_pages]
  have n: "length example_pages = 3" by (simp add: example_pages_def)
  have "map window_pages (windows_submitted example_oracle ''doc'' example_pages) = spec_windows 3"
    using t[THEN conjunct1] by (simp only: n)
  then have a: "map window_pages (windows_submitted example_oracle ''doc'' example_pages) = [[1, 2], [2, 3]]"
    by (simp add: spec_windows_def upt_rec)
  have "(3::nat) \<in> {1..length example_pages}" by (simp add: n)
  with t have b: "\<exists>w \<in> set (windows_submitted example_oracle ''doc'' example_pages). 3 \<in> set (window_pages w)"
    by blast
  have "(2::nat) \<in> {1..<length example_pages}" by (simp add: n)
  with t have c: "\<exists>!j. j < length (windows_submitted example_oracle ''doc'' example_pages)
          \<and> 2 \<in> set (window_pages (windows_submitted example_oracle ''doc'' example_pages ! j))
          \<and> Suc 2 \<in> set (window_pages (windows_submitted example_oracle ''doc'' example_pages ! j))"
    by blast
  from a b c show ?thesis by blast
qed


section \<open>Deduplication across windows\<close>


lemma find_prev_wf:
  assumes "\<forall>p \<in> set allQ. qtext p \<noteq> None" "qtext q \<noteq> None"
  shows "find_prev allQ q = Inr (find (\<lambda>p. fingerprint p = fingerprint q) allQ)"
  using assms by (induction allQ) (auto simp: fingerprint_def)

lemma merge_window_wf:
  assumes "\<forall>p \<in> set allQ. qtext p \<noteq> None" "\<forall>q \<in> set qs. qtext q \<noteq> None"
  shows "merge_window allQ qs = (allQ @ news (map fingerprint (rev allQ)) qs, None)"
  using assms
proof (induction qs arbitrary: allQ)
  case Nil
  then show ?case by simp
next
  case (Cons q qs)
  have fp: "find_prev allQ q = Inr (find (\<lambda>p. fingerprint p = fingerprint q) allQ)"
    using Cons.prems by (intro find_prev_wf) auto
  show ?case
  proof (cases "find (\<lambda>p. fingerprint p = fingerprint q) allQ")
    case None
    then have notin: "fingerprint q \<notin> set (map fingerprint (rev allQ))"
      by (auto simp: find_None_iff)
    have "merge_window (allQ @ [q]) qs =
            ((allQ @ [q]) @ news (map fingerprint (rev (allQ @ [q]))) qs, None)"
      using Cons.prems by (intro Cons.IH) auto
    with None notin fp show ?thesis by simp
  next
    case (Some p)
    then have "fingerprint q \<in> set (map fingerprint (rev allQ))"
      by (auto simp: find_Some_iff) (metis imageI nth_mem)
    moreover have "merge_window allQ qs = (allQ @ news (map fingerprint (rev allQ)) qs, None)"
      using Cons.prems by (intro Cons.IH) auto
    ultimately show ?thesis using Some fp by simp
  qed
qed

lemma news_append:
  "news seen (xs @ ys) = news seen xs @ news (map fingerprint (rev (news seen xs)) @ seen) ys"
  by (induction xs arbitrary: seen) auto

lemma news_fingerprints:
  "fingerprint ` set (news seen qs) = fingerprint ` set qs - set seen"
  by (induction qs arbitrary: seen) auto

lemma news_distinct: "distinct (map fingerprint (news seen qs))"
proof (induction qs arbitrary: seen)
  case Nil
  then show ?case by simp
next
  case (Cons q qs)
  have "fingerprint q \<notin> fingerprint ` set (news (fingerprint q # seen) qs)"
    by (simp add: news_fingerprints)
  with Cons show ?case by simp
qed

lemma news_subseq: "subseq (news seen qs) qs"
  by (induction qs arbitrary: seen) auto

lemma news_first:
  "q \<in> set (news seen qs) \<Longrightarrow> find (\<lambda>c. fingerprint c = fingerprint q) qs = Some q"
proof (induction qs arbitrary: seen)
  case Nil
  then show ?case by simp
next
  case (Cons c qs)
  show ?case
  proof (cases "fingerprint c \<in> set seen")
    case True
    with Cons.prems have mem: "q \<in> set (news seen qs)" by simp
    then have "fingerprint q \<in> fingerprint ` set qs - set seen"
      using news_fingerprints by blast
    with True have "fingerprint c \<noteq> fingerprint q" by auto
    with Cons.IH[OF mem] show ?thesis by simp
  next
    case False
    with Cons.prems have "q = c \<or> q \<in> set (news (fingerprint c # seen) qs)" by simp
    then show ?thesis
    proof
      assume "q = c"
      then show ?thesis by simp
    next
      assume mem: "q \<in> set (news (fingerprint c # seen) qs)"
      then have "fingerprint q \<in> fingerprint ` set qs - set (fingerprint c # seen)"
        using news_fingerprints by blast
      then have "fingerprint c \<noteq> fingerprint q" by auto
      with Cons.IH[OF mem] show ?thesis by simp
    qed
  qed
qed

lemma news_set: "set (news seen qs) \<subseteq> set qs"
  by (induction qs arbitrary: seen) auto

lemma process_window_allQuestions:
  assumes "\<forall>p \<in> set (allQuestions st). qtext p \<noteq> None"
    and "\<forall>q \<in> set (answer pb src input i). qtext q \<noteq> None"
  shows "allQuestions (process_window pb src (slice i (i + 2) input) i st) =
           allQuestions st @ news (map fingerprint (rev (allQuestions st))) (answer pb src input i)"
proof (cases "pb (map ImagePart (slice i (i + 2) input)) src (Some (i + 1))")
  case (Inl e)
  then show ?thesis by (simp add: process_window_def answer_def)
next
  case (Inr qs)
  with assms(2) have "\<forall>q \<in> set qs. qtext q \<noteq> None" by (simp add: answer_def)
  with assms(1) have "merge_window (allQuestions st) qs =
      (allQuestions st @ news (map fingerprint (rev (allQuestions st))) qs, None)"
    by (rule merge_window_wf)
  with Inr show ?thesis by (simp add: process_window_def answer_def)
qed

lemma loop_allQuestions:
  assumes "\<forall>p \<in> set (allQuestions st). qtext p \<noteq> None"
    and "\<forall>j \<in> {i..<last_start (length input) i}. \<forall>q \<in> set (answer pb src input j). qtext q \<noteq> None"
  shows "allQuestions (window_loop pb src input i st) =
           allQuestions st @ news (map fingerprint (rev (allQuestions st)))
             (concat (map (answer pb src input) [i..<last_start (length input) i]))"
  using assms
proof (induction pb src input i st rule: window_loop.induct)
  case (1 pb src input i st)
  show ?case
  proof (cases "i < length input")
    case False
    then show ?thesis by (simp add: window_loop.simps last_start_def)
  next
    case True
    then have ne: "length (slice i (i + WINDOW_SIZE) input) \<noteq> 0"
      by (simp add: slice_def WINDOW_SIZE_def)
    from True have imem: "i \<in> {i..<last_start (length input) i}"
      by (auto simp: last_start_def)
    let ?st' = "process_window pb src (slice i (i + WINDOW_SIZE) input) i st"
    let ?a = "answer pb src input i"
    have "allQuestions (process_window pb src (slice i (i + 2) input) i st) =
        allQuestions st @ news (map fingerprint (rev (allQuestions st))) ?a"
      using "1.prems"(1) imem "1.prems"(2) by (intro process_window_allQuestions) blast+
    then have st': "allQuestions ?st' =
        allQuestions st @ news (map fingerprint (rev (allQuestions st))) ?a"
      by (simp add: WINDOW_SIZE_def)
    show ?thesis
    proof (cases "i + WINDOW_SIZE \<ge> length input")
      case True
      then have "[i..<last_start (length input) i] = [i]"
        using \<open>i < length input\<close> by (auto simp: last_start_def WINDOW_SIZE_def upt_rec)
      moreover have "window_loop pb src input i st = ?st'"
        using True \<open>i < length input\<close> ne
        by (subst window_loop.simps) (simp add: Let_def WINDOW_SIZE_def)
      ultimately show ?thesis using st' by simp
    next
      case False
      then have ls: "last_start (length input) i = last_start (length input) (i + 1)"
        by (auto simp: last_start_def WINDOW_SIZE_def)
      have lt: "i < last_start (length input) (i + 1)"
        using False by (auto simp: last_start_def WINDOW_SIZE_def)
      have upt: "[i..<last_start (length input) i] = i # [i + 1..<last_start (length input) (i + 1)]"
        using lt ls by (simp add: upt_conv_Cons)
      have wf': "\<forall>p \<in> set (allQuestions ?st'). qtext p \<noteq> None"
        using st' "1.prems"(1) imem "1.prems"(2) news_set by fastforce
      have rest: "\<forall>j \<in> {i + 1..<last_start (length input) (i + 1)}.
                    \<forall>q \<in> set (answer pb src input j). qtext q \<noteq> None"
        using "1.prems"(2) ls by auto
      have step: "window_loop pb src input i st = window_loop pb src input (i + 1) ?st'"
        using False \<open>i < length input\<close> ne
        by (subst window_loop.simps) (simp add: Let_def WINDOW_SIZE_def)
      have "allQuestions (window_loop pb src input (i + 1) ?st') =
              allQuestions ?st' @ news (map fingerprint (rev (allQuestions ?st')))
                (concat (map (answer pb src input) [i + 1..<last_start (length input) (i + 1)]))"
        using ne False by (intro "1.IH"[OF \<open>i < length input\<close> refl _ refl _ wf' rest]) simp_all
      then show ?thesis
        unfolding step upt st' by (simp add: news_append)
    qed
  qed
qed

lemma candidates_eq:
  "candidates pb src input =
     concat (map (answer pb src input) [0..<last_start (length input) 0])"
  by (simp add: candidates_def windows_submitted_eq answer_def[abs_def] comp_def)

text \<open>
  What the deduplication does when every candidate of the run carries a stem text:
  the run returns its accepted questions; no two of them share a fingerprint (the
  first 50 code units of the stem); every fingerprint among the candidates is the
  fingerprint of an accepted question; each accepted question is the first candidate,
  in the order in which the windows were processed, that carries its fingerprint; and
  the accepted questions stand in the order of the candidates.
\<close>

theorem dedup_first_wins:
  assumes "\<forall>q \<in> set (candidates pb src input). qtext q \<noteq> None"
  shows "snd (parseQuestionsWithGemini True pb (PageImages input) src)
           = Inr (allQuestions (fst (parseQuestionsWithGemini True pb (PageImages input) src)))
    \<and> distinct (map fingerprint
          (allQuestions (fst (parseQuestionsWithGemini True pb (PageImages input) src))))
    \<and> fingerprint ` set (allQuestions (fst (parseQuestionsWithGemini True pb (PageImages input) src)))
         = fingerprint ` set (candidates pb src input)
    \<and> subseq (allQuestions (fst (parseQuestionsWithGemini True pb (PageImages input) src)))
         (candidates pb src input)
    \<and> (\<forall>q \<in> set (allQuestions (fst (parseQuestionsWithGemini True pb (PageImages input) src))).
          find (\<lambda>c. fingerprint c = fingerprint q) (candidates pb src input) = Some q)"
proof -
  let ?final = "allQuestions (fst (parseQuestionsWithGemini True pb (PageImages input) src))"
  have wf: "\<forall>j \<in> {0..<last_start (length input) 0}.
              \<forall>q \<in> set (answer pb src input j). qtext q \<noteq> None"
    using assms by (auto simp: candidates_eq)
  have "?final = allQuestions (window_loop pb src input 0 initial_state)"
    by (simp add: parseQuestionsWithGemini_def Let_def)
  also have "\<dots> = allQuestions initial_state @ news (map fingerprint (rev (allQuestions initial_state)))
             (concat (map (answer pb src input) [0..<last_start (length input) 0]))"
    using wf by (intro loop_allQuestions) (simp_all add: initial_state_def)
  finally have final: "?final = news [] (candidates pb src input)"
    by (simp add: initial_state_def candidates_eq)
  have r: "snd (parseQuestionsWithGemini True pb (PageImages input) src) = Inr ?final"
    by (simp add: parseQuestionsWithGemini_def Let_def)
  have d: "distinct (map fingerprint ?final)"
    unfolding final by (rule news_distinct)
  have f: "fingerprint ` set ?final = fingerprint ` set (candidates pb src input)"
    unfolding final by (simp add: news_fingerprints)
  have s: "subseq ?final (candidates pb src input)"
    unfolding final by (rule news_subseq)
  have fst: "\<forall>q \<in> set ?final.
          find (\<lambda>c. fingerprint c = fingerprint q) (candidates pb src input) = Some q"
    unfolding final using news_first by blast
  from r d f s fst show ?thesis by blast
qed

lemma example_candidates:
  "candidates example_oracle ''doc'' example_pages =
     [example_question stem_one, example_question ''b'',
      example_question stem_two, example_question ''c'']"
  by (simp add: candidates_def windows_submitted_eq last_start_def example_pages_def slice_def
      upt_rec example_oracle_def)

text \<open>
  At the example oracle the second window's first candidate shares its first 50 code
  units with the first window's first candidate and is dropped.
\<close>

theorem dedup_first_wins_witness:
  "fingerprint (example_question stem_two) = fingerprint (example_question stem_one)
   \<and> snd (parseQuestionsWithGemini True example_oracle (PageImages example_pages) ''doc'')
       = Inr [example_question stem_one, example_question ''b'', example_question ''c'']
   \<and> distinct (map fingerprint
        (allQuestions (fst (parseQuestionsWithGemini True example_oracle (PageImages example_pages) ''doc''))))
   \<and> subseq (allQuestions (fst (parseQuestionsWithGemini True example_oracle (PageImages example_pages) ''doc'')))
        [example_question stem_one, example_question ''b'',
         example_question stem_two, example_question ''c'']"
proof -
  have wf: "\<forall>q \<in> set (candidates example_oracle ''doc'' example_pages). qtext q \<noteq> None"
    by (simp add: example_candidates example_question_def)
  note t = dedup_first_wins[OF wf]
  have fp: "fingerprint (example_question stem_two) = fingerprint (example_question stem_one)"
    by (simp add: fingerprint_def example_question_def stem_one_def stem_two_def substring_0_50_def)
  have run: "allQuestions (fst (parseQuestionsWithGemini True example_oracle (PageImages example_pages) ''doc''))
      = [example_question stem_one, example_question ''b'', example_question ''c'']"
    by (simp add: parseQuestionsWithGemini_def window_loop.simps Let_def example_pages_def
        slice_def WINDOW_SIZE_def process_window_def example_oracle_def initial_state_def
        example_question_def stem_one_def stem_two_def substring_0_50_def)
  from t have r: "snd (parseQuestionsWithGemini True example_oracle (PageImages example_pages) ''doc'')
       = Inr [example_question stem_one, example_question ''b'', example_question ''c'']"
    by (simp only: run)
  from t have d: "distinct (map fingerprint
        (allQuestions (fst (parseQuestionsWithGemini True example_oracle (PageImages example_pages) ''doc''))))"
    by blast
  from t have s: "subseq (allQuestions (fst (parseQuestionsWithGemini True example_oracle (PageImages example_pages) ''doc'')))
        [example_question stem_one, example_question ''b'',
         example_question stem_two, example_question ''c'']"
    by (simp only: example_candidates)
  from fp r d s show ?thesis by blast
qed


text \<open>
  Claim C2 fails on the code. One page; the oracle's answer for its window is a
  question with the stem \<open>a\<close>, a record without \<open>text\<close>, and a question with the stem
  \<open>b\<close>. The first is accepted. On the record without \<open>text\<close> the predicate of \<open>find\<close>
  raises, which ends the loop over the window's candidates: the third candidate, whose
  fingerprint matches no accepted question, is never looked at and is not accepted.
\<close>

theorem textless_record_drops_new_candidate:
  "candidates mixed_oracle ''doc'' one_page =
     [example_question ''a'', textless_question, example_question ''b'']
   \<and> fingerprint (example_question ''b'') \<noteq> fingerprint (example_question ''a'')
   \<and> parseQuestionsWithGemini True mixed_oracle (PageImages one_page) ''doc'' =
     (\<lparr>allQuestions = [example_question ''a''],
       logged = [WindowStart 1, WindowFailed TypeError],
       submitted = [([ImagePart (one_page ! 0)], Some 1)]\<rparr>,
      Inr [example_question ''a''])"
proof -
  have c: "candidates mixed_oracle ''doc'' one_page =
     [example_question ''a'', textless_question, example_question ''b'']"
    by (simp add: candidates_def windows_submitted_eq last_start_def one_page_def slice_def
        upt_rec mixed_oracle_def)
  have f: "fingerprint (example_question ''b'') \<noteq> fingerprint (example_question ''a'')"
    by (simp add: fingerprint_def example_question_def substring_0_50_def)
  have r: "parseQuestionsWithGemini True mixed_oracle (PageImages one_page) ''doc'' =
     (\<lparr>allQuestions = [example_question ''a''],
       logged = [WindowStart 1, WindowFailed TypeError],
       submitted = [([ImagePart (one_page ! 0)], Some 1)]\<rparr>,
      Inr [example_question ''a''])"
    by (simp add: parseQuestionsWithGemini_def window_loop.simps Let_def one_page_def
        slice_def WINDOW_SIZE_def process_window_def mixed_oracle_def initial_state_def
        textless_question_def example_question_def)
  from c f r show ?thesis by blast
qed

section \<open>A window that fails\<close>

lemma rejected_window_skipped:
  assumes "pb (map ImagePart chunk) src (Some (i + 1)) = Inl e"
  shows "process_window pb src chunk i st =
           st\<lparr>logged := logged st @ [WindowStart (i + 1), WindowFailed e],
               submitted := submitted st @ [(map ImagePart chunk, Some (i + 1))]\<rparr>"
  using assms by (simp add: process_window_def)

lemma page_array_never_rejects:
  "\<exists>qs. snd (parseQuestionsWithGemini True pb (PageImages input) src) = Inr qs"
  by (simp add: parseQuestionsWithGemini_def Let_def)

text \<open>
  Claim C5 fails on the code. Three pages; the oracle's answer for the window at page 1
  is a record without \<open>text\<close>, its answer for the window at page 2 is a well-formed
  question.
  \<open>find\<close> on the still empty \<open>allQuestions\<close> never runs its predicate, so the malformed
  record is accepted without an error and nothing is logged for its window; from then
  on the predicate raises on it for every candidate of every later window. The
  well-formed candidate of the second window is lost.
\<close>

theorem textless_record_poisons_later_windows:
  "parseQuestionsWithGemini True textless_oracle (PageImages example_pages) ''doc'' =
     (\<lparr>allQuestions = [textless_question],
       logged = [WindowStart 1, WindowStart 2, WindowFailed TypeError],
       submitted = [([ImagePart (example_pages ! 0), ImagePart (example_pages ! 1)], Some 1),
                    ([ImagePart (example_pages ! 1), ImagePart (example_pages ! 2)], Some 2)]\<rparr>,
      Inr [textless_question])"
  by (simp add: parseQuestionsWithGemini_def window_loop.simps Let_def example_pages_def
      slice_def WINDOW_SIZE_def process_window_def textless_oracle_def initial_state_def
      textless_question_def example_question_def)

section \<open>The region cropper\<close>

lemma box_coords_None_iff:
  "box_coords box = None \<longleftrightarrow> (\<forall>xs. box = BoxArray xs \<longrightarrow> length xs \<noteq> 4)"
  by (induction box rule: box_coords.induct) auto

lemma crop_settles:
  "\<exists>r. snd (cropImageFromBase64 env img box) = Inr r"
  by (auto simp: cropImageFromBase64_def Let_def split: option.splits prod.splits sum.splits)

text \<open>
  Claim C9. A box that is null, undefined, not an array, or an array whose length is
  not 4 makes the crop resolve to null at once: nothing is done before, and
  \<open>img.src\<close> in particular is never assigned, so no decoding starts.
\<close>

theorem crop_bad_box_immediate:
  "box = BoxNull \<or> box = BoxUndefined \<or> box = BoxNonArray
     \<or> (\<exists>xs. box = BoxArray xs \<and> length xs \<noteq> 4)
   \<Longrightarrow> cropImageFromBase64 env base64Image box = ([], Inr None)"
proof -
  assume "box = BoxNull \<or> box = BoxUndefined \<or> box = BoxNonArray
     \<or> (\<exists>xs. box = BoxArray xs \<and> length xs \<noteq> 4)"
  then have "box_coords box = None"
    by (auto simp: box_coords_None_iff)
  then show ?thesis by (simp add: cropImageFromBase64_def)
qed

text \<open>C9 at a null box and at an array of three numbers.\<close>

theorem crop_bad_box_immediate_witness:
  "cropImageFromBase64 example_browser ''page'' BoxNull = ([], Inr None)
   \<and> length [1, 2, 3 :: real] \<noteq> 4
   \<and> cropImageFromBase64 example_browser ''page'' (BoxArray [1, 2, 3]) = ([], Inr None)"
proof -
  have a: "cropImageFromBase64 example_browser ''page'' BoxNull = ([], Inr None)"
    by (rule crop_bad_box_immediate) simp
  have b: "cropImageFromBase64 example_browser ''page'' (BoxArray [1, 2, 3]) = ([], Inr None)"
    by (rule crop_bad_box_immediate) simp
  from a b show ?thesis by simp
qed

text \<open>
  Claim C3. The promise of the crop never rejects, whatever the image string, the box
  and the browser do; it resolves to null for every box of four numbers with
  \<open>ymin \<ge> ymax\<close> or \<open>xmin \<ge> xmax\<close>, and it resolves to null whenever the image fails to
  decode.
\<close>

theorem crop_absent_never_rejects:
  "(\<exists>r. snd (cropImageFromBase64 env base64Image box) = Inr r)
   \<and> (box = BoxArray [ymin, xmin, ymax, xmax] \<and> (ymin \<ge> ymax \<or> xmin \<ge> xmax)
        \<longrightarrow> snd (cropImageFromBase64 env base64Image box) = Inr None)
   \<and> (decode env (image_src base64Image) = None
        \<longrightarrow> snd (cropImageFromBase64 env base64Image box) = Inr None)"
proof (intro conjI impI)
  show "\<exists>r. snd (cropImageFromBase64 env base64Image box) = Inr r"
    by (rule crop_settles)
next
  assume "box = BoxArray [ymin, xmin, ymax, xmax] \<and> (ymin \<ge> ymax \<or> xmin \<ge> xmax)"
  then show "snd (cropImageFromBase64 env base64Image box) = Inr None"
    by (auto simp: cropImageFromBase64_def try_body_def Let_def split: option.splits)
next
  assume "decode env (image_src base64Image) = None"
  then show "snd (cropImageFromBase64 env base64Image box) = Inr None"
    by (simp add: cropImageFromBase64_def Let_def split: option.splits)
qed

text \<open>
  C3 at a box with \<open>ymin = ymax\<close> on a browser that decodes, and at a well-formed box
  on a browser that cannot decode.
\<close>

theorem crop_absent_never_rejects_witness:
  "(500::real) \<ge> 500
   \<and> snd (cropImageFromBase64 example_browser ''page'' (BoxArray [500, 0, 500, 10])) = Inr None
   \<and> decode broken_browser (image_src ''page'') = None
   \<and> snd (cropImageFromBase64 broken_browser ''page'' (BoxArray [0, 0, 500, 500])) = Inr None"
proof -
  note t1 = crop_absent_never_rejects[of example_browser "''page''" "BoxArray [500, 0, 500, 10]"
      500 0 500 10]
  have a: "snd (cropImageFromBase64 example_browser ''page'' (BoxArray [500, 0, 500, 10])) = Inr None"
    using t1 by simp
  have d: "decode broken_browser (image_src ''page'') = None"
    by (simp add: broken_browser_def)
  note t2 = crop_absent_never_rejects[of broken_browser "''page''" "BoxArray [0, 0, 500, 500]"]
  have b: "snd (cropImageFromBase64 broken_browser ''page'' (BoxArray [0, 0, 500, 500])) = Inr None"
    using t2 d by blast
  from a d b show ?thesis by simp
qed













section \<open>The crop selector\<close>

lemma getMousePos_not_laid_out:
  assumes "rect_width (bounding cv) = 0" "canvas_width cv > 0"
    and "clientX e = rect_left (bounding cv)"
  shows "pos_x (getMousePos (Some cv) e) = NaN"
  using assms by (simp add: getMousePos_def Let_def js_div_def)

text \<open>
  Claim C7. Let the canvas be displayed with a width and a height that are not 0, so
  that it has a scale factor on each axis, whatever the two factors are. A pointer
  event at the top-left corner of the displayed canvas (\<open>clientX = rect.left\<close>,
  \<open>clientY = rect.top\<close>) is mapped to the native pixel \<open>(0, 0)\<close>.
\<close>

theorem corner_maps_to_origin:
  assumes "rect_width (bounding cv) \<noteq> 0" "rect_height (bounding cv) \<noteq> 0"
    and "clientX e = rect_left (bounding cv)" "clientY e = rect_top (bounding cv)"
  shows "getMousePos (Some cv) e = \<lparr>pos_x = Num 0, pos_y = Num 0\<rparr>"
  using assms by (simp add: getMousePos_def Let_def js_div_def)

text \<open>C7 at a canvas scaled by 4 across and by 3.2 down.\<close>

theorem corner_maps_to_origin_witness:
  "rect_width (bounding example_canvas) = 300 \<and> rect_height (bounding example_canvas) = 500
   \<and> getMousePos (Some example_canvas) \<lparr>clientX = 40, clientY = 100\<rparr>
        = \<lparr>pos_x = Num 0, pos_y = Num 0\<rparr>"
proof -
  have w: "rect_width (bounding example_canvas) = 300"
    and h: "rect_height (bounding example_canvas) = 500"
    by (simp_all add: example_canvas_def)
  have "getMousePos (Some example_canvas) \<lparr>clientX = 40, clientY = 100\<rparr>
        = \<lparr>pos_x = Num 0, pos_y = Num 0\<rparr>"
    by (rule corner_maps_to_origin) (simp_all add: example_canvas_def)
  with w h show ?thesis by simp
qed

text \<open>
  Claim C6, as the code has it. When the rectangle between the two stored corners is
  less than 10 pixels wide or less than 10 pixels high, a click on the confirm button
  performs no crop and leaves the state, both corners included, as it is. It shows the
  warning when a canvas is mounted; when none is mounted the handler returns before
  it looks at the selection, and nothing is shown.
\<close>

theorem small_selection_rejected:
  assumes "js_lt (selection_width s) (Num 10) \<or> js_lt (selection_height s) (Num 10)"
  shows "fst (handleCropConfirm s) = s
    \<and> \<not> is_crop (snd (handleCropConfirm s))
    \<and> (canvasRef s \<noteq> None \<longrightarrow>
          snd (handleCropConfirm s) = Alert ''Selection too small. Please select a larger area.'')
    \<and> (canvasRef s = None \<longrightarrow> snd (handleCropConfirm s) = Silent)"
  using assms
  by (auto simp: handleCropConfirm_def Let_def selection_width_def selection_height_def is_crop_def
      split: option.splits)

text \<open>C6 at a selection 5 pixels wide on a mounted canvas.\<close>

theorem small_selection_rejected_witness:
  "js_lt (selection_width small_selection) (Num 10)
   \<and> canvasRef small_selection = Some example_canvas
   \<and> handleCropConfirm small_selection =
       (small_selection, Alert ''Selection too small. Please select a larger area.'')"
proof -
  have a: "js_lt (selection_width small_selection) (Num 10)"
    by (simp add: selection_width_def small_selection_def)
  have c: "canvasRef small_selection = Some example_canvas"
    by (simp add: small_selection_def)
  from small_selection_rejected[of small_selection] a c
  have "fst (handleCropConfirm small_selection) = small_selection
    \<and> snd (handleCropConfirm small_selection) = Alert ''Selection too small. Please select a larger area.''"
    by simp
  then have "handleCropConfirm small_selection =
       (small_selection, Alert ''Selection too small. Please select a larger area.'')"
    by (simp add: prod_eq_iff)
  with a c show ?thesis by simp
qed

text \<open>
  Claim C6 as stated fails when no canvas is mounted: the selection is 5 pixels wide,
  the handler returns at its first line, and no warning is shown.
\<close>

theorem small_selection_without_canvas_is_silent:
  "js_lt (selection_width unmounted_selection) (Num 10)
   \<and> handleCropConfirm unmounted_selection = (unmounted_selection, Silent)"
  by (simp add: selection_width_def unmounted_selection_def small_selection_def
      handleCropConfirm_def)


section \<open>The question card\<close>

lemma length_clear_others: "length (clear_others i k opts) = length opts"
  by (induction opts arbitrary: k) auto

lemma nth_clear_others:
  "j < length opts \<Longrightarrow>
     clear_others i k opts ! j = (if k + j \<noteq> i then (opts ! j)\<lparr>isCorrect := False\<rparr> else opts ! j)"
proof (induction opts arbitrary: k j)
  case Nil
  then show ?case by simp
next
  case (Cons a opts)
  show ?case
  proof (cases j)
    case 0
    then show ?thesis by simp
  next
    case (Suc j')
    with Cons.prems have "j' < length opts" by simp
    from Cons.IH[OF this, of "Suc k"] Suc show ?thesis by simp
  qed
qed

text \<open>
  Claim C10. Setting \<open>isCorrect\<close> to true on an option of an \<open>mcq\<close> question hands
  \<open>onUpdate\<close> a question with the same number of options in which that option is marked
  correct and no other is, texts and images being as they were. For a question of
  another type the handler changes the addressed option only.
\<close>

theorem mcq_single_correct:
  assumes "optIndex < length (options question)"
  shows "\<exists>old new. handleOptionChange question optIndex (FieldIsCorrect True) = Some (old, new)
    \<and> length (options new) = length (options question)
    \<and> (qtype question = mcq \<longrightarrow>
         (\<forall>j < length (options new). isCorrect (options new ! j) \<longleftrightarrow> j = optIndex))
    \<and> (qtype question \<noteq> mcq \<longrightarrow>
         isCorrect (options new ! optIndex)
         \<and> (\<forall>j < length (options new). j \<noteq> optIndex \<longrightarrow> options new ! j = options question ! j))
    \<and> (\<forall>j < length (options new).
          opt_text (options new ! j) = opt_text (options question ! j)
          \<and> opt_image (options new ! j) = opt_image (options question ! j))"
proof (cases "qtype question = mcq")
  case True
  let ?new = "question\<lparr>options := clear_others optIndex 0
      ((options question)[optIndex := set_field (FieldIsCorrect True) (options question ! optIndex)])\<rparr>"
  let ?old = "question\<lparr>options := clear_others optIndex 0 (options question)\<rparr>"
  have r: "handleOptionChange question optIndex (FieldIsCorrect True) = Some (?old, ?new)"
    using assms True by (simp add: handleOptionChange_def Let_def)
  have l: "length (options ?new) = length (options question)"
    by (simp add: length_clear_others)
  have c: "\<forall>j < length (options ?new). isCorrect (options ?new ! j) \<longleftrightarrow> j = optIndex"
    using assms by (auto simp: length_clear_others nth_clear_others nth_list_update)
  have k: "\<forall>j < length (options ?new).
          opt_text (options ?new ! j) = opt_text (options question ! j)
          \<and> opt_image (options ?new ! j) = opt_image (options question ! j)"
    using assms by (auto simp: length_clear_others nth_clear_others nth_list_update)
  from r l c k True show ?thesis by blast
next
  case False
  let ?new = "question\<lparr>options :=
      (options question)[optIndex := set_field (FieldIsCorrect True) (options question ! optIndex)]\<rparr>"
  have r: "handleOptionChange question optIndex (FieldIsCorrect True) = Some (question, ?new)"
    using assms False by (simp add: handleOptionChange_def Let_def)
  have l: "length (options ?new) = length (options question)" by simp
  have c: "isCorrect (options ?new ! optIndex)
         \<and> (\<forall>j < length (options ?new). j \<noteq> optIndex \<longrightarrow> options ?new ! j = options question ! j)"
    using assms by simp
  have k: "\<forall>j < length (options ?new).
          opt_text (options ?new ! j) = opt_text (options question ! j)
          \<and> opt_image (options ?new ! j) = opt_image (options question ! j)"
    using assms by (auto simp: nth_list_update)
  from r l c k False show ?thesis by blast
qed

text \<open>C10 at a two-option \<open>mcq\<close> question whose first option is marked correct.\<close>

theorem mcq_single_correct_witness:
  "(1::nat) < length (options example_mcq) \<and> qtype example_mcq = mcq
   \<and> isCorrect (options example_mcq ! 0)
   \<and> (\<exists>old new. handleOptionChange example_mcq 1 (FieldIsCorrect True) = Some (old, new)
         \<and> isCorrect (options new ! 1) \<and> \<not> isCorrect (options new ! 0))"
proof -
  have l: "(1::nat) < length (options example_mcq)" and m: "qtype example_mcq = mcq"
    and i: "isCorrect (options example_mcq ! 0)"
    by (simp_all add: example_mcq_def)
  from mcq_single_correct[OF l] m obtain old new where
    r: "handleOptionChange example_mcq 1 (FieldIsCorrect True) = Some (old, new)"
    and n: "length (options new) = length (options example_mcq)"
    and c: "\<forall>j < length (options new). isCorrect (options new ! j) \<longleftrightarrow> j = 1"
    by blast
  from n have "length (options new) = 2" by (simp add: example_mcq_def)
  with c have "isCorrect (options new ! 1) \<and> \<not> isCorrect (options new ! 0)"
    by simp
  with r l m i show ?thesis by blast
qed


section \<open>The upload progress\<close>

lemma counting_Suc: "counting (Suc n) T = counting n T @ [(Suc n, T)]"
  by (simp add: counting_def)

lemma foldl_sum:
  fixes f :: "'a \<Rightarrow> nat"
  shows "foldl (\<lambda>count q. count + f q) a qs = a + sum_list (map f qs)"
  by (induction qs arbitrary: a) auto

lemma weight_start:
  "weight (start_thread q) = (if is_data_url (image q) then 1 else 0) + option_images q"
  by (simp add: weight_def start_thread_def)

lemma totalImages_weight: "totalImages qs = sum_list (map weight (map start_thread qs))"
  by (simp add: totalImages_def foldl_sum comp_def weight_start)

lemma upload_inv_start: "upload_inv (totalImages qs) (upload_start qs)"
  by (auto simp: upload_inv_def upload_start_def counting_def totalImages_weight list_all_iff
      start_thread_def)

lemma sum_weight_update:
  assumes "i < length ts"
  shows "sum_list (map weight (ts[i := t])) + weight (ts ! i) = sum_list (map weight ts) + weight t"
proof -
  have "sum_list ((map weight ts)[i := weight t]) = sum_list (map weight ts) + weight t - map weight ts ! i"
    using assms by (intro sum_list_update) simp
  moreover have "map weight ts ! i \<le> sum_list (map weight ts)"
    using assms by (intro member_le_sum_list) simp_all
  ultimately show ?thesis using assms by (simp add: map_update)
qed

lemma upload_step_inv:
  assumes "upload_inv T s" "upload_step True T ev s = Some s'"
  shows "upload_inv T s'"
proof -
  obtain i ok where ev: "ev = Settles i ok" by (cases ev)
  from assms(2) have i: "i < length (threads s)"
    by (auto simp: upload_step_def ev split: if_splits)
  let ?t = "threads s ! i"
  from assms(1) have p: "progress s = counting (uploadCount s) T"
    and z: "list_all (\<lambda>t. main_in_flight t \<longrightarrow> options_in_flight t = 0) (threads s)"
    and le: "uploadCount s + sum_list (map weight (threads s)) \<le> T"
    and eq: "list_all (\<lambda>t. \<not> rejected t) (threads s) \<longrightarrow>
          uploadCount s + sum_list (map weight (threads s)) = T"
    by (simp_all add: upload_inv_def)
  from z i have zi: "main_in_flight ?t \<longrightarrow> options_in_flight ?t = 0"
    by (simp add: list_all_length)
  have upd_z: "\<And>t'. (main_in_flight t' \<longrightarrow> options_in_flight t' = 0) \<Longrightarrow>
      list_all (\<lambda>t. main_in_flight t \<longrightarrow> options_in_flight t = 0) ((threads s)[i := t'])"
    using z i by (auto simp: list_all_length nth_list_update)
  have upd_r: "\<And>t'. list_all (\<lambda>t. \<not> rejected t) ((threads s)[i := t']) \<Longrightarrow> rejected t' = rejected ?t
      \<Longrightarrow> list_all (\<lambda>t. \<not> rejected t) (threads s)"
    using i by (auto simp: list_all_length nth_list_update split: if_splits)
  have upd_nr: "\<And>t'. rejected t' \<Longrightarrow> \<not> list_all (\<lambda>t. \<not> rejected t) ((threads s)[i := t'])"
    using i by (auto simp: list_all_length nth_list_update)
  consider (main_ok) "main_in_flight ?t" "ok"
    | (main_fail) "main_in_flight ?t" "\<not> ok"
    | (opt_ok) "\<not> main_in_flight ?t" "options_in_flight ?t > 0" "ok"
    | (opt_fail) "\<not> main_in_flight ?t" "options_in_flight ?t > 0" "\<not> ok"
    using assms(2) i by (auto simp: upload_step_def ev Let_def split: if_splits)
  then show ?thesis
  proof cases
    case main_ok
    let ?t' = "?t\<lparr>main_in_flight := False, options_waiting := 0, options_in_flight := options_waiting ?t\<rparr>"
    from main_ok assms(2) i have s': "s' = (report True T s)\<lparr>threads := (threads s)[i := ?t']\<rparr>"
      by (simp add: upload_step_def ev Let_def)
    have w: "weight ?t = 1 + weight ?t'" using main_ok by (simp add: weight_def)
    from sum_weight_update[OF i, of ?t'] w
    have sum: "sum_list (map weight ((threads s)[i := ?t'])) + 1 = sum_list (map weight (threads s))"
      by simp
    have r: "rejected ?t' = rejected ?t" by simp
    show ?thesis
      unfolding upload_inv_def s'
      using p le eq sum upd_z[of ?t'] upd_r[OF _ r]
      by (auto simp: report_def Let_def counting_Suc)
  next
    case main_fail
    let ?t' = "?t\<lparr>main_in_flight := False, rejected := True\<rparr>"
    from main_fail assms(2) i have s': "s' = s\<lparr>threads := (threads s)[i := ?t']\<rparr>"
      by (simp add: upload_step_def ev Let_def)
    have w: "weight ?t' \<le> weight ?t" using main_fail zi by (simp add: weight_def)
    from sum_weight_update[OF i, of ?t'] w
    have sum: "sum_list (map weight ((threads s)[i := ?t'])) \<le> sum_list (map weight (threads s))"
      by simp
    show ?thesis
      unfolding upload_inv_def s'
      using p le sum upd_z[of ?t'] upd_nr[of ?t']
      by auto
  next
    case opt_ok
    let ?t' = "?t\<lparr>options_in_flight := options_in_flight ?t - 1\<rparr>"
    from opt_ok assms(2) i have s': "s' = (report True T s)\<lparr>threads := (threads s)[i := ?t']\<rparr>"
      by (simp add: upload_step_def ev Let_def)
    have w: "weight ?t = 1 + weight ?t'" using opt_ok by (simp add: weight_def)
    from sum_weight_update[OF i, of ?t'] w
    have sum: "sum_list (map weight ((threads s)[i := ?t'])) + 1 = sum_list (map weight (threads s))"
      by simp
    have r: "rejected ?t' = rejected ?t" by simp
    show ?thesis
      unfolding upload_inv_def s'
      using p le eq sum upd_z[of ?t'] upd_r[OF _ r] opt_ok
      by (auto simp: report_def Let_def counting_Suc)
  next
    case opt_fail
    let ?t' = "?t\<lparr>options_in_flight := options_in_flight ?t - 1, rejected := True\<rparr>"
    from opt_fail assms(2) i have s': "s' = s\<lparr>threads := (threads s)[i := ?t']\<rparr>"
      by (simp add: upload_step_def ev Let_def)
    have w: "weight ?t' \<le> weight ?t" using opt_fail by (simp add: weight_def)
    from sum_weight_update[OF i, of ?t'] w
    have sum: "sum_list (map weight ((threads s)[i := ?t'])) \<le> sum_list (map weight (threads s))"
      by simp
    show ?thesis
      unfolding upload_inv_def s'
      using p le sum upd_z[of ?t'] upd_nr[of ?t'] opt_fail
      by auto
  qed
qed

lemma upload_run_inv:
  assumes "upload_inv T s" "upload_run True T evs s = Some s'"
  shows "upload_inv T s'"
  using assms
proof (induction evs arbitrary: s)
  case Nil
  then show ?case by simp
next
  case (Cons ev evs)
  from Cons.prems(2) obtain s1 where s1: "upload_step True T ev s = Some s1"
    and rest: "upload_run True T evs s1 = Some s'"
    by (auto split: option.splits)
  from upload_step_inv[OF Cons.prems(1) s1] rest show ?case
    by (rule Cons.IH)
qed

lemma fulfilled_weight:
  assumes "upload_inv T s" "fulfilled s"
  shows "uploadCount s = T"
proof -
  from assms(2) have "\<forall>t \<in> set (threads s). weight t = 0"
    by (auto simp: fulfilled_def settled_def list_all_iff weight_def)
  then have "sum_list (map weight (threads s)) = 0" by (simp add: sum_list_eq_0_iff)
  moreover from assms have "uploadCount s + sum_list (map weight (threads s)) = T"
    by (simp add: upload_inv_def fulfilled_def)
  ultimately show ?thesis by linarith
qed

text \<open>
  Claim C8, as the code has it. In every run of the upload with a progress callback,
  whatever the order in which the uploads settle and whichever of them fail, the
  calls of the callback are \<open>(1, T), (2, T), ..., (n, T)\<close> with \<open>n \<le> T\<close>, where \<open>T\<close> is the
  number of data-URL images counted up front: \<open>current\<close> goes up by one from call to
  call, \<open>total\<close> is \<open>T\<close> throughout, and \<open>current\<close> never exceeds it. When the operation is
  fulfilled, that is, every upload has settled and none was rejected, \<open>n = T\<close>.
\<close>

theorem progress_counts_uploads:
  assumes "uploadImagesToFirebaseAndCreateJSON questions True schedule = Some s"
  shows "progress s = counting (uploadCount s) (totalImages questions)
    \<and> uploadCount s \<le> totalImages questions
    \<and> (fulfilled s \<longrightarrow>
         progress s = counting (totalImages questions) (totalImages questions))"
proof -
  have inv: "upload_inv (totalImages questions) s"
    using upload_inv_start assms unfolding uploadImagesToFirebaseAndCreateJSON_def
    by (rule upload_run_inv)
  then have p: "progress s = counting (uploadCount s) (totalImages questions)"
    and le: "uploadCount s \<le> totalImages questions"
    by (simp_all add: upload_inv_def)
  have "fulfilled s \<longrightarrow> uploadCount s = totalImages questions"
    using inv fulfilled_weight by blast
  with p le show ?thesis by auto
qed

text \<open>
  C8 at one question with a main image and one option image, both uploads succeeding.
\<close>

theorem progress_counts_uploads_witness:
  "totalImages [example_mcq] = 2
   \<and> (\<exists>s. uploadImagesToFirebaseAndCreateJSON [example_mcq] True [Settles 0 True, Settles 0 True]
              = Some s
         \<and> fulfilled s \<and> progress s = [(1, 2), (2, 2)])"
proof -
  have T: "totalImages [example_mcq] = 2"
    by (simp add: totalImages_def option_images_def is_data_url_def startsWith_def example_mcq_def)
  obtain s where r: "uploadImagesToFirebaseAndCreateJSON [example_mcq] True
      [Settles 0 True, Settles 0 True] = Some s" and f: "fulfilled s"
    by (simp add: uploadImagesToFirebaseAndCreateJSON_def upload_start_def start_thread_def
        upload_step_def report_def Let_def fulfilled_def settled_def
        option_images_def is_data_url_def startsWith_def example_mcq_def)
  from progress_counts_uploads[OF r] f
  have "progress s = counting (totalImages [example_mcq]) (totalImages [example_mcq])"
    by blast
  then have "progress s = [(1, 2), (2, 2)]" by (simp add: T counting_def upt_rec)
  with T r f show ?thesis by blast
qed

text \<open>
  Claim C8 as stated fails when an upload is rejected. One question with two data-URL
  images, so \<open>T = 2\<close>; the upload of its main image fails. The function awaiting it
  raises before it counts, the option image is never uploaded, and the callback is not
  called at all.
\<close>

theorem rejected_upload_is_not_counted:
  "totalImages [example_mcq] = 2
   \<and> (\<exists>s. uploadImagesToFirebaseAndCreateJSON [example_mcq] True [Settles 0 False] = Some s
         \<and> settled s \<and> progress s = [])"
  by (simp add: uploadImagesToFirebaseAndCreateJSON_def upload_start_def start_thread_def
      upload_step_def Let_def settled_def totalImages_def
      option_images_def is_data_url_def startsWith_def example_mcq_def)

text \<open>
  Every list of questions has a run that is fulfilled: the one in which every upload
  succeeds, question after question.
\<close>


lemma upload_run_append:
  "upload_run b T (xs @ ys) s =
     (case upload_run b T xs s of None \<Rightarrow> None | Some s' \<Rightarrow> upload_run b T ys s')"
  by (induction xs arbitrary: s) (auto split: option.splits)

lemma thread_runs_out:
  assumes "i < length (threads s)" "weight (threads s ! i) = n"
    and "main_in_flight (threads s ! i) \<longrightarrow> options_in_flight (threads s ! i) = 0"
  shows "\<exists>s'. upload_run True T (replicate n (Settles i True)) s = Some s'
           \<and> length (threads s') = length (threads s)
           \<and> (\<forall>j < length (threads s). j \<noteq> i \<longrightarrow> threads s' ! j = threads s ! j)
           \<and> \<not> main_in_flight (threads s' ! i)
           \<and> options_in_flight (threads s' ! i) = 0
           \<and> rejected (threads s' ! i) = rejected (threads s ! i)"
  using assms
proof (induction n arbitrary: s)
  case 0
  then show ?case by (auto simp: weight_def split: if_splits)
next
  case (Suc n)
  let ?t = "threads s ! i"
  show ?case
  proof (cases "main_in_flight ?t")
    case True
    let ?t1 = "?t\<lparr>main_in_flight := False, options_waiting := 0, options_in_flight := options_waiting ?t\<rparr>"
    let ?s1 = "(report True T s)\<lparr>threads := (threads s)[i := ?t1]\<rparr>"
    have step: "upload_step True T (Settles i True) s = Some ?s1"
      using True Suc.prems(1) by (simp add: upload_step_def Let_def)
    have i1: "i < length (threads ?s1)" using Suc.prems(1) by simp
    have t1: "threads ?s1 ! i = ?t1" using Suc.prems(1) by simp
    have w1: "weight (threads ?s1 ! i) = n"
      unfolding t1 using True Suc.prems(2) by (simp add: weight_def)
    have z1: "main_in_flight (threads ?s1 ! i) \<longrightarrow> options_in_flight (threads ?s1 ! i) = 0"
      unfolding t1 by simp
    from Suc.IH[OF i1 w1 z1] obtain s' where
      r: "upload_run True T (replicate n (Settles i True)) ?s1 = Some s'"
      and l: "length (threads s') = length (threads ?s1)"
      and o: "\<forall>j < length (threads ?s1). j \<noteq> i \<longrightarrow> threads s' ! j = threads ?s1 ! j"
      and m: "\<not> main_in_flight (threads s' ! i)"
      and f: "options_in_flight (threads s' ! i) = 0"
      and rj: "rejected (threads s' ! i) = rejected (threads ?s1 ! i)"
      by blast
    have "upload_run True T (replicate (Suc n) (Settles i True)) s = Some s'"
      using step r by simp
    moreover have "length (threads s') = length (threads s)" using l by simp
    moreover have "\<forall>j < length (threads s). j \<noteq> i \<longrightarrow> threads s' ! j = threads s ! j"
      using o by simp
    moreover have "rejected (threads s' ! i) = rejected ?t"
      using rj unfolding t1 by simp
    ultimately show ?thesis using m f by blast
  next
    case False
    with Suc.prems(2) have fl: "options_in_flight ?t = Suc n" by (simp add: weight_def)
    let ?t1 = "?t\<lparr>options_in_flight := options_in_flight ?t - 1\<rparr>"
    let ?s1 = "(report True T s)\<lparr>threads := (threads s)[i := ?t1]\<rparr>"
    have step: "upload_step True T (Settles i True) s = Some ?s1"
      using False fl Suc.prems(1) by (simp add: upload_step_def Let_def)
    have i1: "i < length (threads ?s1)" using Suc.prems(1) by simp
    have t1: "threads ?s1 ! i = ?t1" using Suc.prems(1) by simp
    have w1: "weight (threads ?s1 ! i) = n"
      unfolding t1 using False fl by (simp add: weight_def)
    have z1: "main_in_flight (threads ?s1 ! i) \<longrightarrow> options_in_flight (threads ?s1 ! i) = 0"
      unfolding t1 using False by simp
    from Suc.IH[OF i1 w1 z1] obtain s' where
      r: "upload_run True T (replicate n (Settles i True)) ?s1 = Some s'"
      and l: "length (threads s') = length (threads ?s1)"
      and o: "\<forall>j < length (threads ?s1). j \<noteq> i \<longrightarrow> threads s' ! j = threads ?s1 ! j"
      and m: "\<not> main_in_flight (threads s' ! i)"
      and f: "options_in_flight (threads s' ! i) = 0"
      and rj: "rejected (threads s' ! i) = rejected (threads ?s1 ! i)"
      by blast
    have "upload_run True T (replicate (Suc n) (Settles i True)) s = Some s'"
      using step r by simp
    moreover have "length (threads s') = length (threads s)" using l by simp
    moreover have "\<forall>j < length (threads s). j \<noteq> i \<longrightarrow> threads s' ! j = threads s ! j"
      using o by simp
    moreover have "rejected (threads s' ! i) = rejected ?t"
      using rj unfolding t1 by simp
    ultimately show ?thesis using m f by blast
  qed
qed

lemma all_succeed_prefix:
  assumes "k \<le> length qs"
  shows "\<exists>s. upload_run True T (all_succeed qs k) (upload_start qs) = Some s
           \<and> length (threads s) = length qs
           \<and> (\<forall>j < k. \<not> main_in_flight (threads s ! j) \<and> options_in_flight (threads s ! j) = 0
                  \<and> \<not> rejected (threads s ! j))
           \<and> (\<forall>j < length qs. k \<le> j \<longrightarrow> threads s ! j = start_thread (qs ! j))"
  using assms
proof (induction k)
  case 0
  then show ?case by (simp add: all_succeed_def upload_start_def)
next
  case (Suc k)
  then have k: "k < length qs" by simp
  from Suc obtain s where
    r: "upload_run True T (all_succeed qs k) (upload_start qs) = Some s"
    and l: "length (threads s) = length qs"
    and d: "\<forall>j < k. \<not> main_in_flight (threads s ! j) \<and> options_in_flight (threads s ! j) = 0
                  \<and> \<not> rejected (threads s ! j)"
    and u: "\<forall>j < length qs. k \<le> j \<longrightarrow> threads s ! j = start_thread (qs ! j)"
    by auto
  from u k have tk: "threads s ! k = start_thread (qs ! k)" by simp
  have ik: "k < length (threads s)" using k l by simp
  have wk: "weight (threads s ! k) = weight (start_thread (qs ! k))" by (simp add: tk)
  have zk: "main_in_flight (threads s ! k) \<longrightarrow> options_in_flight (threads s ! k) = 0"
    by (simp add: tk start_thread_def)
  from thread_runs_out[OF ik wk zk, of T] obtain s' where
    r': "upload_run True T (replicate (weight (start_thread (qs ! k))) (Settles k True)) s = Some s'"
    and l': "length (threads s') = length (threads s)"
    and o': "\<forall>j < length (threads s). j \<noteq> k \<longrightarrow> threads s' ! j = threads s ! j"
    and m': "\<not> main_in_flight (threads s' ! k)"
    and f': "options_in_flight (threads s' ! k) = 0"
    and rj': "rejected (threads s' ! k) = rejected (threads s ! k)"
    by blast
  have split: "all_succeed qs (Suc k) =
      all_succeed qs k @ replicate (weight (start_thread (qs ! k))) (Settles k True)"
    by (simp add: all_succeed_def)
  have run: "upload_run True T (all_succeed qs (Suc k)) (upload_start qs) = Some s'"
    by (simp add: split upload_run_append r r')
  have nr: "\<not> rejected (threads s' ! k)"
    using rj' by (simp add: tk start_thread_def)
  have fin: "\<forall>j < Suc k. \<not> main_in_flight (threads s' ! j) \<and> options_in_flight (threads s' ! j) = 0
                  \<and> \<not> rejected (threads s' ! j)"
  proof (intro allI impI)
    fix j assume "j < Suc k"
    then consider "j = k" | "j < k" by linarith
    then show "\<not> main_in_flight (threads s' ! j) \<and> options_in_flight (threads s' ! j) = 0
                  \<and> \<not> rejected (threads s' ! j)"
    proof cases
      case 1
      with m' f' nr show ?thesis by simp
    next
      case 2
      with o' ik have "threads s' ! j = threads s ! j" by simp
      with d 2 show ?thesis by simp
    qed
  qed
  have rest: "\<forall>j < length qs. Suc k \<le> j \<longrightarrow> threads s' ! j = start_thread (qs ! j)"
    using o' u l by simp
  from run l l' fin rest show ?case by auto
qed

lemma upload_can_fulfil:
  "\<exists>schedule s. uploadImagesToFirebaseAndCreateJSON questions True schedule = Some s \<and> fulfilled s"
proof -
  from all_succeed_prefix[of "length questions" questions "totalImages questions"]
  obtain s where
    r: "upload_run True (totalImages questions) (all_succeed questions (length questions))
          (upload_start questions) = Some s"
    and l: "length (threads s) = length questions"
    and d: "\<forall>j < length questions. \<not> main_in_flight (threads s ! j)
              \<and> options_in_flight (threads s ! j) = 0 \<and> \<not> rejected (threads s ! j)"
    by auto
  from d l have "fulfilled s"
    by (simp add: fulfilled_def settled_def list_all_length)
  with r show ?thesis
    unfolding uploadImagesToFirebaseAndCreateJSON_def by blast
qed

end
